theory Spec2Isabelle
  imports Complex_Main
begin

section \<open>The host platform: ECMAScript time values and the Date object\<close>

text \<open>
  The source file \<^verbatim>\<open>core-js-dates-tasks.js\<close> computes with the built-in \<^verbatim>\<open>Date\<close>
  object. A \<^verbatim>\<open>Date\<close> holds one number, its time value: milliseconds since
  01 January 1970 00:00:00 UTC. The functions below are the abstract operations of the
  ECMAScript specification (section "Date Objects") under their own names, over
  mathematical integers.

  What the language leaves to the host is a parameter of the model, the record
  \<open>host\<close> below: the local time zone adjustment \<^verbatim>\<open>LocalTZA\<close>, from which
  \<^verbatim>\<open>LocalTime\<close> and \<^verbatim>\<open>UTC\<close> are made, and what \<^verbatim>\<open>Date.parse\<close> returns on a string
  that is not a calendar date written \<^verbatim>\<open>YYYY-MM-DD\<close>. The local-time methods
  \<^verbatim>\<open>getDate\<close>, \<^verbatim>\<open>getMonth\<close>, \<^verbatim>\<open>getFullYear\<close>, \<^verbatim>\<open>getDay\<close> and \<^verbatim>\<open>setDate\<close> and the
  constructor \<^verbatim>\<open>new Date(year, month, date)\<close> go through \<^verbatim>\<open>LocalTime\<close> and \<^verbatim>\<open>UTC\<close>;
  \<^verbatim>\<open>Date.parse\<close> of a date-only string does not: it denotes midnight UTC.

  Scope of the model:
  \<^item> time values are unbounded integers: \<^verbatim>\<open>TimeClip\<close> (which turns a time value beyond
    8.64e15 ms, about year 275760, into \<^verbatim>\<open>NaN\<close>) is not modelled;
  \<^item> numbers passed by the caller are integers;
  \<^item> the quotient \<^verbatim>\<open>dateDifferTimestamp / 1000 / 3600 / 24\<close> is taken in the real numbers.
    The source takes it in double precision, which gives the same number where the
    difference is a whole number of days, as it is between two calendar dates, and a
    number of the same sign everywhere.
\<close>

type_synonym Date = int

definition msPerDay :: int where
  "msPerDay = 86400000"

definition Day :: "int \<Rightarrow> int" where
  "Day t = t div msPerDay"

definition TimeWithinDay :: "int \<Rightarrow> int" where
  "TimeWithinDay t = t mod msPerDay"

definition DaysInYear :: "int \<Rightarrow> int" where
  "DaysInYear y =
     (if y mod 4 \<noteq> 0 then 365
      else if y mod 100 \<noteq> 0 then 366
      else if y mod 400 \<noteq> 0 then 365
      else 366)"

definition DayFromYear :: "int \<Rightarrow> int" where
  "DayFromYear y =
     365 * (y - 1970) + (y - 1969) div 4 - (y - 1901) div 100 + (y - 1601) div 400"

definition TimeFromYear :: "int \<Rightarrow> int" where
  "TimeFromYear y = msPerDay * DayFromYear y"

text \<open>
  ECMAScript defines \<^verbatim>\<open>YearFromTime(t)\<close> as the largest year \<open>y\<close> with
  \<^verbatim>\<open>TimeFromYear(y) \<le> t\<close>. The executable form below starts from a year that is not
  after the right one and walks forward; lemma \<open>YearFromTime_spec\<close> proves that it
  meets the specification.
\<close>

lemma div_step:
  fixes a n :: int
  assumes "0 < n"
  shows "(a + 1) div n = a div n + (if (a + 1) mod n = 0 then 1 else 0)"
proof (cases "a mod n + 1 = n")
  case True
  have "a + 1 = n * (a div n) + (a mod n + 1)" by simp
  also have "\<dots> = n * (a div n + 1)" using True by (simp add: distrib_left)
  finally have e: "a + 1 = n * (a div n + 1)" .
  have "(a + 1) div n = a div n + 1" using assms by (subst e) simp
  moreover have "(a + 1) mod n = 0" by (subst e) simp
  ultimately show ?thesis by simp
next
  case False
  have r: "0 \<le> a mod n" "a mod n + 1 < n"
    using assms False pos_mod_bound[of n a] pos_mod_sign[of n a] by linarith+
  have e: "a + 1 = n * (a div n) + (a mod n + 1)" by simp
  have "(a + 1) div n = a div n"
    using r by (intro int_div_pos_eq[OF e]) simp_all
  moreover have "(a + 1) mod n = a mod n + 1"
    using r by (intro int_mod_pos_eq[OF e]) simp_all
  ultimately show ?thesis using r by simp
qed

lemma mod4_shift: "(y - 1968) mod 4 = y mod 4" for y :: int
  using mod_mult_self1[of y "- 492" 4] by simp

lemma mod100_shift: "(y - 1900) mod 100 = y mod 100" for y :: int
  using mod_mult_self1[of y "- 19" 100] by simp

lemma mod400_shift: "(y - 1600) mod 400 = y mod 400" for y :: int
  using mod_mult_self1[of y "- 4" 400] by simp

lemma mod400_mod100: "y mod 400 = 0 \<Longrightarrow> y mod 100 = 0" for y :: int
  by auto

lemma mod100_mod4: "y mod 100 = 0 \<Longrightarrow> y mod 4 = 0" for y :: int
  by auto

lemma DayFromYear_Suc: "DayFromYear (y + 1) = DayFromYear y + DaysInYear y"
proof -
  have a: "(y + 1 - 1969) div 4 = (y - 1969) div 4 + (if y mod 4 = 0 then 1 else 0)"
    using div_step[of 4 "y - 1969"] mod4_shift[of y] by (simp add: algebra_simps)
  have b: "(y + 1 - 1901) div 100 = (y - 1901) div 100 + (if y mod 100 = 0 then 1 else 0)"
    using div_step[of 100 "y - 1901"] mod100_shift[of y] by (simp add: algebra_simps)
  have c: "(y + 1 - 1601) div 400 = (y - 1601) div 400 + (if y mod 400 = 0 then 1 else 0)"
    using div_step[of 400 "y - 1601"] mod400_shift[of y] by (simp add: algebra_simps)
  show ?thesis
    unfolding DayFromYear_def DaysInYear_def using mod400_mod100[of y] mod100_mod4[of y]
    by (simp only: a b c) auto
qed

lemma DaysInYear_cases: "DaysInYear y = 365 \<or> DaysInYear y = 366"
  by (simp add: DaysInYear_def)

function year_search :: "int \<Rightarrow> int \<Rightarrow> int" where
  "year_search d y = (if DayFromYear (y + 1) \<le> d then year_search d (y + 1) else y)"
  by pat_completeness auto
termination
proof (relation "measure (\<lambda>(d, y). nat (d - DayFromYear y))")
  show "wf (measure (\<lambda>(d, y). nat (d - DayFromYear y)))" by simp
next
  fix d y :: int
  assume "DayFromYear (y + 1) \<le> d"
  then show "((d, y + 1), (d, y)) \<in> measure (\<lambda>(d, y). nat (d - DayFromYear y))"
    using DaysInYear_cases[of y] by (auto simp: DayFromYear_Suc)
qed

declare year_search.simps [simp del]

definition YearFromTime :: "int \<Rightarrow> int" where
  "YearFromTime t =
     (let d = Day t in year_search d (1970 + (if 0 \<le> d then d div 366 else d div 365)))"

definition InLeapYear :: "int \<Rightarrow> int" where
  "InLeapYear t = (if DaysInYear (YearFromTime t) = 366 then 1 else 0)"

definition DayWithinYear :: "int \<Rightarrow> int" where
  "DayWithinYear t = Day t - DayFromYear (YearFromTime t)"

definition MonthFromTime :: "int \<Rightarrow> int" where
  "MonthFromTime t =
     (let d = DayWithinYear t; l = InLeapYear t in
      if d < 31 then 0
      else if d < 59 + l then 1
      else if d < 90 + l then 2
      else if d < 120 + l then 3
      else if d < 151 + l then 4
      else if d < 181 + l then 5
      else if d < 212 + l then 6
      else if d < 243 + l then 7
      else if d < 273 + l then 8
      else if d < 304 + l then 9
      else if d < 334 + l then 10
      else 11)"

definition DateFromTime :: "int \<Rightarrow> int" where
  "DateFromTime t =
     (let d = DayWithinYear t; l = InLeapYear t; m = MonthFromTime t in
      if m = 0 then d + 1
      else if m = 1 then d - 30
      else if m = 2 then d - 58 - l
      else if m = 3 then d - 89 - l
      else if m = 4 then d - 119 - l
      else if m = 5 then d - 150 - l
      else if m = 6 then d - 180 - l
      else if m = 7 then d - 211 - l
      else if m = 8 then d - 242 - l
      else if m = 9 then d - 272 - l
      else if m = 10 then d - 303 - l
      else d - 333 - l)"


text \<open>
  \<^verbatim>\<open>MakeDay(year, month, date)\<close>: the day number of the first day of month
  \<open>month mod 12\<close> of year \<open>year + \<lfloor>month / 12\<rfloor>\<close>, plus \<open>date - 1\<close>. The day of
  the month may lie outside the month: that is how \<^verbatim>\<open>setDate\<close> moves across months.
\<close>

definition month_start :: "int \<Rightarrow> int \<Rightarrow> int" where
  "month_start ym mn =
     (let l = (if DaysInYear ym = 366 then 1 else 0) in
      if mn = 0 then 0
      else if mn = 1 then 31
      else if mn = 2 then 59 + l
      else if mn = 3 then 90 + l
      else if mn = 4 then 120 + l
      else if mn = 5 then 151 + l
      else if mn = 6 then 181 + l
      else if mn = 7 then 212 + l
      else if mn = 8 then 243 + l
      else if mn = 9 then 273 + l
      else if mn = 10 then 304 + l
      else 334 + l)"

definition MakeDay :: "int \<Rightarrow> int \<Rightarrow> int \<Rightarrow> int" where
  "MakeDay year month date =
     (let ym = year + month div 12; mn = month mod 12 in
      DayFromYear ym + month_start ym mn + date - 1)"

definition MakeDate :: "int \<Rightarrow> int \<Rightarrow> int" where
  "MakeDate day time = day * msPerDay + time"

subsection \<open>The host\<close>

text \<open>
  \<^verbatim>\<open>LocalTZA(t, isUTC)\<close> is the offset of the host's local time from UTC in
  milliseconds, at the UTC time \<open>t\<close> when \<open>isUTC\<close> is true and at the local time \<open>t\<close>
  otherwise; it changes with \<open>t\<close> where the clocks change. \<open>parse_other\<close> is what the
  host's \<^verbatim>\<open>Date.parse\<close> returns on a string that is not a calendar date written
  \<^verbatim>\<open>YYYY-MM-DD\<close> (\<open>None\<close> for \<^verbatim>\<open>NaN\<close>): the language leaves that to the
  implementation.
\<close>

record host =
  LocalTZA :: "int \<Rightarrow> bool \<Rightarrow> int"
  parse_other :: "string \<Rightarrow> int option"

definition LocalTime :: "host \<Rightarrow> int \<Rightarrow> int" where
  "LocalTime h t = t + LocalTZA h t True"

definition UTC :: "host \<Rightarrow> int \<Rightarrow> int" where
  "UTC h t = t - LocalTZA h t False"

subsection \<open>Methods of Date\<close>

definition getDate :: "host \<Rightarrow> Date \<Rightarrow> int" where
  "getDate h t = DateFromTime (LocalTime h t)"

definition getMonth :: "host \<Rightarrow> Date \<Rightarrow> int" where
  "getMonth h t = MonthFromTime (LocalTime h t)"

definition getFullYear :: "host \<Rightarrow> Date \<Rightarrow> int" where
  "getFullYear h t = YearFromTime (LocalTime h t)"


definition setDate :: "host \<Rightarrow> Date \<Rightarrow> int \<Rightarrow> Date" where
  "setDate h t dt =
     (let lt = LocalTime h t;
          newDate = MakeDate (MakeDay (YearFromTime lt) (MonthFromTime lt) dt) (TimeWithinDay lt)
      in UTC h newDate)"


subsection \<open>Strings\<close>

text \<open>\<^verbatim>\<open>String(n)\<close> for an integer \<open>n\<close>: its decimal digits, with a minus sign below zero.\<close>

fun digits :: "nat \<Rightarrow> string" where
  "digits n =
     (if n < 10 then [''0123456789'' ! n]
      else digits (n div 10) @ [''0123456789'' ! (n mod 10)])"

declare digits.simps [simp del]

definition String_of_int :: "int \<Rightarrow> string" where
  "String_of_int i = (if i < 0 then CHR ''-'' # digits (nat (- i)) else digits (nat i))"

definition padStart :: "string \<Rightarrow> nat \<Rightarrow> char \<Rightarrow> string" where
  "padStart s targetLength c = replicate (targetLength - length s) c @ s"

fun split :: "string \<Rightarrow> char \<Rightarrow> string list" where
  "split [] sep = [[]]"
| "split (x # xs) sep =
     (if x = sep then [] # split xs sep
      else (case split xs sep of
              [] \<Rightarrow> [[x]]
            | w # ws \<Rightarrow> (x # w) # ws))"

fun join :: "string list \<Rightarrow> string \<Rightarrow> string" where
  "join [] sep = []"
| "join [x] sep = x"
| "join (x # y # zs) sep = x @ sep @ join (y # zs) sep"

text \<open>
  The date-only form \<^verbatim>\<open>YYYY-MM-DD\<close> of the ECMAScript date-time string format: four,
  two and two digits that make a calendar date. It denotes midnight UTC of that day, on
  every host. \<open>iso_date\<close> is \<open>None\<close> on every other string.
\<close>

definition is_digit :: "char \<Rightarrow> bool" where
  "is_digit c = (c \<in> set ''0123456789'')"

definition digit_value :: "char \<Rightarrow> int" where
  "digit_value c = int (of_char c) - 48"

definition number_of :: "string \<Rightarrow> int" where
  "number_of s = foldl (\<lambda>n c. 10 * n + digit_value c) 0 s"

definition DaysInMonth :: "int \<Rightarrow> int \<Rightarrow> int" where
  "DaysInMonth y m =
     (if m = 2 then (if DaysInYear y = 366 then 29 else 28)
      else if m = 4 \<or> m = 6 \<or> m = 9 \<or> m = 11 then 30
      else 31)"

definition iso_date :: "string \<Rightarrow> Date option" where
  "iso_date s =
     (if length s = 10 \<and> s ! 4 = CHR ''-'' \<and> s ! 7 = CHR ''-''
         \<and> list_all is_digit (take 4 s @ take 2 (drop 5 s) @ drop 8 s)
      then
        (let y = number_of (take 4 s);
             m = number_of (take 2 (drop 5 s));
             d = number_of (drop 8 s)
         in if 1 \<le> m \<and> m \<le> 12 \<and> 1 \<le> d \<and> d \<le> DaysInMonth y m
            then Some (MakeDate (MakeDay y (m - 1) d) 0)
            else None)
      else None)"

text \<open>
  \<^verbatim>\<open>Date.parse\<close>: a calendar date \<^verbatim>\<open>YYYY-MM-DD\<close> is read by the language's own
  format; on any other string (a day past the end of the month, fields without their
  leading zeros, the other forms of the format) the host decides.
\<close>

definition Date_parse :: "host \<Rightarrow> string \<Rightarrow> Date option" where
  "Date_parse h s = (case iso_date s of Some t \<Rightarrow> Some t | None \<Rightarrow> parse_other h s)"

section \<open>The source functions\<close>

subsection \<open>getCountDaysInMonth\<close>


subsection \<open>getCountWeekendsInMonth\<close>




subsection \<open>transformDate and getWorkSchedule\<close>

definition transformDate :: "host \<Rightarrow> Date \<Rightarrow> string" where
  "transformDate h date =
     (let day = padStart (String_of_int (getDate h date)) 2 CHR ''0'';
          month = padStart (String_of_int (getMonth h date + 1)) 2 CHR ''0'';
          year = String_of_int (getFullYear h date)
      in day @ ''-'' @ month @ ''-'' @ year)"

record DatePeriod =
  start :: string
  end' :: string

text \<open>
  The inner loop, \<open>b\<close> from 1 to \<open>countWorkDays\<close>: push the current date, formatted, and
  move \<open>currDate\<close> one day on. It does not look at the end of the period.
\<close>

function work_days_loop ::
  "host \<Rightarrow> int \<Rightarrow> int \<Rightarrow> Date \<Rightarrow> string list \<Rightarrow> Date \<times> string list"
where
  "work_days_loop h b countWorkDays currDate scheduale =
     (if b \<le> countWorkDays then
        (let date = transformDate h currDate;
             currDate1 = setDate h currDate (getDate h currDate + 1)
         in work_days_loop h (b + 1) countWorkDays currDate1 (scheduale @ [date]))
      else (currDate, scheduale))"
  by pat_completeness auto
termination
  by (relation
      "measure (\<lambda>(h, b, countWorkDays, currDate, scheduale). nat (countWorkDays + 1 - b))")
    auto

declare work_days_loop.simps [simp del]

text \<open>
  The outer loop, \<open>for (let i = 1; i <= totalDayCount; i += countOffDays)\<close>, whose body
  runs the inner loop, adds \<open>countWorkDays\<close> to \<open>i\<close> and moves \<open>currDate\<close> on by
  \<open>countOffDays\<close> days. Nothing in the source bounds the cadence from below, so the
  loop need not end: \<open>None\<close> is the run that never returns.
\<close>

partial_function (option) schedule_loop ::
  "host \<Rightarrow> int \<Rightarrow> int \<Rightarrow> int \<Rightarrow> int \<Rightarrow> Date \<Rightarrow> string list
     \<Rightarrow> (Date \<times> string list) option"
where [code]:
  "schedule_loop h i totalDayCount countWorkDays countOffDays currDate scheduale =
     (if i \<le> totalDayCount then
        (let r = work_days_loop h 1 countWorkDays currDate scheduale;
             i1 = i + countWorkDays;
             currDate2 = setDate h (fst r) (getDate h (fst r) + countOffDays)
         in schedule_loop h (i1 + countOffDays) totalDayCount countWorkDays countOffDays
              currDate2 (snd r))
      else Some (currDate, scheduale))"

text \<open>
  \<^verbatim>\<open>getWorkSchedule\<close>. Both dates are turned round to \<^verbatim>\<open>YYYY-MM-DD\<close> and parsed,
  so a date of the period is midnight UTC; the dates pushed are read in local time.
  \<open>currDate\<close> is the start \<^verbatim>\<open>Date\<close> object itself; the difference of the two time
  values is taken before the loop changes it. When a string does not parse, its time
  value is \<^verbatim>\<open>NaN\<close>: then \<open>totalDayCount\<close> is \<^verbatim>\<open>NaN\<close>, \<open>i <= totalDayCount\<close> and the
  final \<open>===\<close> are both false, and the result is the empty array.
\<close>

definition getWorkSchedule ::
  "host \<Rightarrow> DatePeriod \<Rightarrow> int \<Rightarrow> int \<Rightarrow> string list option"
where
  "getWorkSchedule h period countWorkDays countOffDays =
     (let startDate = rev (split (start period) CHR ''-'');
          endDate = rev (split (end' period) CHR ''-'')
      in case (Date_parse h (join startDate ''-''), Date_parse h (join endDate ''-'')) of
           (Some newStartDateObj, Some newEndDateObj) \<Rightarrow>
             (let currDate = newStartDateObj;
                  dateDifferTimestamp = newEndDateObj - newStartDateObj;
                  totalDayCount = \<lceil>real_of_int dateDifferTimestamp / 1000 / 3600 / 24\<rceil>
              in case schedule_loop h 1 totalDayCount countWorkDays countOffDays currDate [] of
                   None \<Rightarrow> None
                 | Some (currDate1, scheduale) \<Rightarrow>
                     (if currDate1 = newEndDateObj
                      then Some (scheduale @ [transformDate h currDate1])
                      else Some scheduale))
         | _ \<Rightarrow> Some [])"

section \<open>Definitions used to state the properties\<close>

text \<open>
  A host whose local time is at the same offset \<open>z\<close> (in milliseconds) from UTC all year
  round, and whose \<^verbatim>\<open>Date.parse\<close> reads nothing but the calendar dates of the language's
  own format. \<open>fixed_host 0\<close> is a host on UTC, \<open>fixed_host (- 18000000)\<close> one five hours
  west of it.
\<close>

definition fixed_host :: "int \<Rightarrow> host" where
  "fixed_host z = \<lparr>LocalTZA = (\<lambda>t isUTC. z), parse_other = (\<lambda>s. None)\<rparr>"

text \<open>
  The time value \<^verbatim>\<open>getWorkSchedule\<close> computes for one boundary of the period: the
  string is split at the dashes, turned round, joined again and parsed. \<open>period_date\<close>
  is that time value for a boundary that is a calendar date \<^verbatim>\<open>DD-MM-YYYY\<close>, where the
  host has no say.
\<close>

definition period_time :: "host \<Rightarrow> string \<Rightarrow> Date option" where
  "period_time h s = Date_parse h (join (rev (split s CHR ''-'')) ''-'')"

definition period_date :: "string \<Rightarrow> Date option" where
  "period_date s = iso_date (join (rev (split s CHR ''-'')) ''-'')"

text \<open>
  What \<^verbatim>\<open>transformDate\<close> writes for a date whose local time is \<open>u\<close>.
\<close>

definition date_text :: "int \<Rightarrow> string" where
  "date_text u =
     padStart (String_of_int (DateFromTime u)) 2 CHR ''0'' @ ''-''
       @ padStart (String_of_int (MonthFromTime u + 1)) 2 CHR ''0'' @ ''-''
       @ String_of_int (YearFromTime u)"

text \<open>
  The calendar day a string \<^verbatim>\<open>DD-MM-YYYY\<close> denotes, as a day number (days since
  01-01-1970): the three fields are read as decimal numbers. The year may have any
  number of digits, and a minus sign before them for a year before year 0.
\<close>

fun day_of_fields :: "string list \<Rightarrow> int option" where
  "day_of_fields [d, m, y] =
     (if d \<noteq> [] \<and> m \<noteq> [] \<and> y \<noteq> [] \<and> list_all is_digit (d @ m @ y)
      then Some (MakeDay (number_of y) (number_of m - 1) (number_of d))
      else None)"
| "day_of_fields [d, m, [], y] =
     (if d \<noteq> [] \<and> m \<noteq> [] \<and> y \<noteq> [] \<and> list_all is_digit (d @ m @ y)
      then Some (MakeDay (- number_of y) (number_of m - 1) (number_of d))
      else None)"
| "day_of_fields _ = None"

definition calendar_day :: "string \<Rightarrow> int option" where
  "calendar_day s = day_of_fields (split s CHR ''-'')"

text \<open>
  The two loops of \<^verbatim>\<open>getWorkSchedule\<close> once more, counting instead of pushing: the
  number of times the body of the inner loop runs, added to \<open>n\<close>, and for the outer
  loop the pair of the number of times its own body runs and the number of times the
  inner body runs. \<open>getWorkSchedule_iterations\<close> is that pair for a call of
  \<^verbatim>\<open>getWorkSchedule\<close>; the dates written play no part in the loop conditions.
\<close>

function work_days_loop_iterations :: "int \<Rightarrow> int \<Rightarrow> nat \<Rightarrow> nat" where
  "work_days_loop_iterations b countWorkDays n =
     (if b \<le> countWorkDays then work_days_loop_iterations (b + 1) countWorkDays (Suc n)
      else n)"
  by pat_completeness auto
termination
  by (relation "measure (\<lambda>(b, countWorkDays, n). nat (countWorkDays + 1 - b))") auto

declare work_days_loop_iterations.simps [simp del]

partial_function (option) schedule_loop_iterations ::
  "int \<Rightarrow> int \<Rightarrow> int \<Rightarrow> int \<Rightarrow> nat \<Rightarrow> nat \<Rightarrow> (nat \<times> nat) option"
where [code]:
  "schedule_loop_iterations i totalDayCount countWorkDays countOffDays outer inner =
     (if i \<le> totalDayCount then
        (let inner1 = work_days_loop_iterations 1 countWorkDays inner;
             i1 = i + countWorkDays
         in schedule_loop_iterations (i1 + countOffDays) totalDayCount countWorkDays
              countOffDays (Suc outer) inner1)
      else Some (outer, inner))"

definition getWorkSchedule_iterations ::
  "host \<Rightarrow> DatePeriod \<Rightarrow> int \<Rightarrow> int \<Rightarrow> (nat \<times> nat) option"
where
  "getWorkSchedule_iterations h period countWorkDays countOffDays =
     (let startDate = rev (split (start period) CHR ''-'');
          endDate = rev (split (end' period) CHR ''-'')
      in case (Date_parse h (join startDate ''-''), Date_parse h (join endDate ''-'')) of
           (Some newStartDateObj, Some newEndDateObj) \<Rightarrow>
             (let dateDifferTimestamp = newEndDateObj - newStartDateObj;
                  totalDayCount = \<lceil>real_of_int dateDifferTimestamp / 1000 / 3600 / 24\<rceil>
              in schedule_loop_iterations 1 totalDayCount countWorkDays countOffDays 0 0)
         | _ \<Rightarrow> Some (0, 0))"




section \<open>Facts about the calendar\<close>

lemma msPerDay_pos: "0 < msPerDay" by (simp add: msPerDay_def)

lemma DaysInYear_bounds: "365 \<le> DaysInYear y" "DaysInYear y \<le> 366"
  by (simp_all add: DaysInYear_def)

lemma DayFromYear_1970: "DayFromYear 1970 = 0" by (simp add: DayFromYear_def)

lemma DayFromYear_le_366: "0 \<le> k \<Longrightarrow> DayFromYear (1970 + k) \<le> 366 * k"
proof (induction k rule: int_ge_induct)
  case base
  then show ?case by (simp add: DayFromYear_1970)
next
  case (step i)
  have "DayFromYear (1970 + (i + 1)) = DayFromYear (1970 + i) + DaysInYear (1970 + i)"
    using DayFromYear_Suc[of "1970 + i"] by (simp add: add.assoc)
  then show ?case using step.IH DaysInYear_bounds[of "1970 + i"] by simp
qed

lemma DayFromYear_le_365: "k \<le> 0 \<Longrightarrow> DayFromYear (1970 + k) \<le> 365 * k"
proof (induction k rule: int_le_induct)
  case base
  then show ?case by (simp add: DayFromYear_1970)
next
  case (step i)
  have "DayFromYear (1970 + (i - 1) + 1) = DayFromYear (1970 + (i - 1)) + DaysInYear (1970 + (i - 1))"
    by (rule DayFromYear_Suc)
  then have "DayFromYear (1970 + i) = DayFromYear (1970 + (i - 1)) + DaysInYear (1970 + (i - 1))"
    by simp
  then show ?case using step.IH DaysInYear_bounds[of "1970 + (i - 1)"] by simp
qed

lemma year_guess_lower:
  "DayFromYear (1970 + (if 0 \<le> d then d div 366 else d div 365)) \<le> d"
proof (cases "0 \<le> d")
  case True
  then have "0 \<le> d div 366" by simp
  then have "DayFromYear (1970 + d div 366) \<le> 366 * (d div 366)" by (rule DayFromYear_le_366)
  also have "\<dots> \<le> d" by (simp add: mult.commute)
  finally show ?thesis using True by simp
next
  case False
  then have "d div 365 \<le> 0" by (simp add: div_nonpos_pos_le0)
  then have "DayFromYear (1970 + d div 365) \<le> 365 * (d div 365)" by (rule DayFromYear_le_365)
  also have "\<dots> \<le> d" by (simp add: mult.commute)
  finally show ?thesis using False by simp
qed

lemma year_search_upper: "d < DayFromYear (year_search d y + 1)"
proof (induction d y rule: year_search.induct)
  case (1 d y)
  show ?case
  proof (cases "DayFromYear (y + 1) \<le> d")
    case True
    then show ?thesis using "1.IH" by (subst year_search.simps) simp
  next
    case False
    then show ?thesis by (subst year_search.simps) simp
  qed
qed

lemma year_search_lower: "DayFromYear y \<le> d \<Longrightarrow> DayFromYear (year_search d y) \<le> d"
proof (induction d y rule: year_search.induct)
  case (1 d y)
  show ?case
  proof (cases "DayFromYear (y + 1) \<le> d")
    case True
    then show ?thesis using "1.IH" by (subst year_search.simps) simp
  next
    case False
    then show ?thesis using "1.prems" by (subst year_search.simps) simp
  qed
qed

lemma YearFromTime_bounds:
  "DayFromYear (YearFromTime t) \<le> Day t \<and> Day t < DayFromYear (YearFromTime t + 1)"
  unfolding YearFromTime_def Let_def
  using year_search_upper year_search_lower[OF year_guess_lower] by blast

lemma DayFromYear_mono_aux: "0 \<le> k \<Longrightarrow> DayFromYear y + 365 * k \<le> DayFromYear (y + k)"
proof (induction k rule: int_ge_induct)
  case base
  then show ?case by simp
next
  case (step i)
  have "DayFromYear (y + (i + 1)) = DayFromYear (y + i) + DaysInYear (y + i)"
    using DayFromYear_Suc[of "y + i"] by (simp add: add.assoc)
  then show ?case using step.IH DaysInYear_bounds[of "y + i"] by simp
qed

lemma DayFromYear_mono: "y \<le> y' \<Longrightarrow> DayFromYear y \<le> DayFromYear y'"
  using DayFromYear_mono_aux[of "y' - y" y] by simp

lemma YearFromTime_unique:
  assumes "DayFromYear y \<le> Day t" "Day t < DayFromYear (y + 1)"
  shows "YearFromTime t = y"
proof (rule ccontr)
  assume ne: "YearFromTime t \<noteq> y"
  note b = YearFromTime_bounds[of t]
  show False
  proof (cases "YearFromTime t < y")
    case True
    then have "DayFromYear (YearFromTime t + 1) \<le> DayFromYear y" by (intro DayFromYear_mono) simp
    then show False using assms b by linarith
  next
    case False
    then have "y + 1 \<le> YearFromTime t" using ne by simp
    then have "DayFromYear (y + 1) \<le> DayFromYear (YearFromTime t)" by (rule DayFromYear_mono)
    then show False using assms b by linarith
  qed
qed

lemma YearFromTime_spec:
  "TimeFromYear (YearFromTime t) \<le> t \<and> t < TimeFromYear (YearFromTime t + 1)"
proof -
  note b = YearFromTime_bounds[of t]
  have lo: "Day t * msPerDay \<le> t" and hi: "t < (Day t + 1) * msPerDay"
    using msPerDay_pos by (simp_all add: Day_def algebra_simps div_mult_self1_is_m
        minus_mod_eq_mult_div[symmetric] pos_mod_bound pos_mod_sign)
  have "DayFromYear (YearFromTime t) * msPerDay \<le> Day t * msPerDay"
    using b msPerDay_pos by simp
  moreover have "(Day t + 1) * msPerDay \<le> DayFromYear (YearFromTime t + 1) * msPerDay"
    using b msPerDay_pos by simp
  ultimately show ?thesis
    using lo hi by (simp add: TimeFromYear_def mult.commute)
qed

lemma DayWithinYear_bounds: "0 \<le> DayWithinYear t \<and> DayWithinYear t < DaysInYear (YearFromTime t)"
  using YearFromTime_bounds[of t] unfolding DayWithinYear_def DayFromYear_Suc by linarith

lemma MonthFromTime_range: "0 \<le> MonthFromTime t \<and> MonthFromTime t \<le> 11"
  by (simp add: MonthFromTime_def Let_def)

lemma MonthFromTime_table:
  "(MonthFromTime t = 0 \<and> DayWithinYear t < 31)
   \<or> (MonthFromTime t = 1 \<and> 31 \<le> DayWithinYear t \<and> DayWithinYear t < 59 + InLeapYear t)
   \<or> (MonthFromTime t = 2 \<and> 59 + InLeapYear t \<le> DayWithinYear t \<and> DayWithinYear t < 90 + InLeapYear t)
   \<or> (MonthFromTime t = 3 \<and> 90 + InLeapYear t \<le> DayWithinYear t \<and> DayWithinYear t < 120 + InLeapYear t)
   \<or> (MonthFromTime t = 4 \<and> 120 + InLeapYear t \<le> DayWithinYear t \<and> DayWithinYear t < 151 + InLeapYear t)
   \<or> (MonthFromTime t = 5 \<and> 151 + InLeapYear t \<le> DayWithinYear t \<and> DayWithinYear t < 181 + InLeapYear t)
   \<or> (MonthFromTime t = 6 \<and> 181 + InLeapYear t \<le> DayWithinYear t \<and> DayWithinYear t < 212 + InLeapYear t)
   \<or> (MonthFromTime t = 7 \<and> 212 + InLeapYear t \<le> DayWithinYear t \<and> DayWithinYear t < 243 + InLeapYear t)
   \<or> (MonthFromTime t = 8 \<and> 243 + InLeapYear t \<le> DayWithinYear t \<and> DayWithinYear t < 273 + InLeapYear t)
   \<or> (MonthFromTime t = 9 \<and> 273 + InLeapYear t \<le> DayWithinYear t \<and> DayWithinYear t < 304 + InLeapYear t)
   \<or> (MonthFromTime t = 10 \<and> 304 + InLeapYear t \<le> DayWithinYear t \<and> DayWithinYear t < 334 + InLeapYear t)
   \<or> (MonthFromTime t = 11 \<and> 334 + InLeapYear t \<le> DayWithinYear t)"
  by (simp add: MonthFromTime_def Let_def)

lemma InLeapYear_eq: "InLeapYear t = DaysInYear (YearFromTime t) - 365"
  using DaysInYear_cases[of "YearFromTime t"] by (auto simp: InLeapYear_def)

lemma month_start_date:
  "month_start (YearFromTime t) (MonthFromTime t) + DateFromTime t - 1 = DayWithinYear t"
  using MonthFromTime_table[of t]
  by (elim disjE conjE) (simp_all add: month_start_def DateFromTime_def InLeapYear_def Let_def)

lemma DateFromTime_range: "1 \<le> DateFromTime t \<and> DateFromTime t \<le> 31"
  using MonthFromTime_table[of t] DayWithinYear_bounds[of t] InLeapYear_eq[of t]
    DaysInYear_cases[of "YearFromTime t"]
  by (elim disjE conjE) (simp_all add: DateFromTime_def Let_def)

lemma MakeDay_fields:
  "MakeDay (YearFromTime t) (MonthFromTime t) (DateFromTime t + n) = Day t + n"
proof -
  have "MonthFromTime t div 12 = 0" "MonthFromTime t mod 12 = MonthFromTime t"
    using MonthFromTime_range[of t] by simp_all
  then show ?thesis
    using month_start_date[of t] by (simp add: MakeDay_def Let_def DayWithinYear_def)
qed

lemma MakeDate_add_days:
  "MakeDate (MakeDay (YearFromTime u) (MonthFromTime u) (DateFromTime u + n)) (TimeWithinDay u) =
     u + n * msPerDay"
proof -
  have "MakeDate (MakeDay (YearFromTime u) (MonthFromTime u) (DateFromTime u + n))
          (TimeWithinDay u) = (Day u + n) * msPerDay + TimeWithinDay u"
    by (simp add: MakeDay_fields MakeDate_def)
  also have "\<dots> = (u div msPerDay * msPerDay + u mod msPerDay) + n * msPerDay"
    by (simp add: Day_def TimeWithinDay_def distrib_right)
  also have "\<dots> = u + n * msPerDay" by simp
  finally show ?thesis .
qed

section \<open>Facts about a host at a fixed offset from UTC\<close>


lemma setDate_getDate:
  assumes "LocalTZA h = (\<lambda>t isUTC. z)"
  shows "setDate h t (getDate h t + n) = t + n * msPerDay"
  using MakeDate_add_days[of "t + z" n]
  by (simp add: setDate_def getDate_def LocalTime_def UTC_def Let_def assms)

lemma transformDate_date_text:
  assumes "LocalTZA h = (\<lambda>t isUTC. z)"
  shows "transformDate h t = date_text (t + z)"
  by (simp add: transformDate_def date_text_def getDate_def getMonth_def getFullYear_def
      LocalTime_def Let_def assms)

section \<open>Facts about the loops of getWorkSchedule\<close>

lemma work_days_loop_run:
  assumes tz: "LocalTZA h = (\<lambda>t isUTC. z)"
  shows "work_days_loop h b wk cur acc =
     (cur + int (nat (wk + 1 - b)) * msPerDay,
      acc @ map (\<lambda>k. transformDate h (cur + int k * msPerDay)) [0..<nat (wk + 1 - b)])"
proof (induction "nat (wk + 1 - b)" arbitrary: b cur acc)
  case 0
  then have "\<not> b \<le> wk" by simp
  then show ?case using 0 by (subst work_days_loop.simps) simp
next
  case (Suc n)
  then have le: "b \<le> wk" and n: "n = nat (wk + 1 - (b + 1))" by linarith+
  have step: "work_days_loop h b wk cur acc =
      work_days_loop h (b + 1) wk (cur + msPerDay) (acc @ [transformDate h cur])"
    using le setDate_getDate[OF tz, of cur 1]
    by (subst work_days_loop.simps) (simp add: Let_def)
  have up: "[0..<Suc n] = 0 # map Suc [0..<n]"
    by (simp add: upt_conv_Cons map_Suc_upt del: upt_Suc)
  have sn: "nat (wk + 1 - b) = Suc n" using Suc.hyps(2) by simp
  show ?case
    unfolding step Suc.hyps(1)[OF n] sn up n[symmetric]
    by (simp add: algebra_simps comp_def)
qed

lemma schedule_loop_exit:
  "\<not> i \<le> D \<Longrightarrow> schedule_loop h i D wk off cur acc = Some (cur, acc)"
  by (subst schedule_loop.simps) simp

lemma schedule_loop_step:
  assumes tz: "LocalTZA h = (\<lambda>t isUTC. z)" and le: "i \<le> D"
  shows "schedule_loop h i D wk off cur acc =
     schedule_loop h (i + wk + off) D wk off (cur + int (nat wk) * msPerDay + off * msPerDay)
       (acc @ map (\<lambda>k. transformDate h (cur + int k * msPerDay)) [0..<nat wk])"
  using le
  by (subst schedule_loop.simps)
    (simp add: Let_def work_days_loop_run[OF tz] setDate_getDate[OF tz])

text \<open>
  Whether the outer loop ends depends on its counter alone, on every host.
\<close>

lemma schedule_loop_terminates:
  "1 \<le> wk + off \<Longrightarrow> \<exists>r. schedule_loop h i D wk off cur acc = Some r"
proof (induction "nat (D + 1 - i)" arbitrary: i cur acc rule: less_induct)
  case less
  show ?case
  proof (cases "i \<le> D")
    case True
    then have "nat (D + 1 - (i + wk + off)) < nat (D + 1 - i)" using less.prems by linarith
    then show ?thesis
      using less.hyps less.prems True
      by (subst schedule_loop.simps) (simp add: Let_def add.assoc)
  next
    case False
    then show ?thesis by (simp add: schedule_loop_exit)
  qed
qed

lemma work_days_loop_iterations_count:
  "work_days_loop_iterations b wk n = n + nat (wk + 1 - b)"
proof (induction "nat (wk + 1 - b)" arbitrary: b n)
  case 0
  then have "\<not> b \<le> wk" by simp
  then show ?case using 0 by (subst work_days_loop_iterations.simps) simp
next
  case (Suc k)
  then have le: "b \<le> wk" and k: "k = nat (wk + 1 - (b + 1))" by linarith+
  have "work_days_loop_iterations b wk n = work_days_loop_iterations (b + 1) wk (Suc n)"
    using le by (subst work_days_loop_iterations.simps) simp
  also have "\<dots> = Suc n + nat (wk + 1 - (b + 1))" by (rule Suc.hyps(1)[OF k])
  also have "\<dots> = n + nat (wk + 1 - b)" using le by simp
  finally show ?case .
qed

lemma schedule_loop_iterations_exit:
  "\<not> i \<le> D \<Longrightarrow> schedule_loop_iterations i D wk off outer inner = Some (outer, inner)"
  by (subst schedule_loop_iterations.simps) simp

lemma schedule_loop_iterations_step:
  "i \<le> D \<Longrightarrow>
   schedule_loop_iterations i D wk off outer inner =
     schedule_loop_iterations (i + wk + off) D wk off (Suc outer) (inner + nat wk)"
  by (subst schedule_loop_iterations.simps)
    (simp add: Let_def work_days_loop_iterations_count)

text \<open>
  With \<open>workDays + offDays \<ge> 1\<close> the outer loop runs at most \<open>totalDayCount + 1 - i\<close>
  times, and the inner body \<open>workDays\<close> times for each of them.
\<close>

lemma schedule_loop_iterations_bound:
  assumes "1 \<le> wk + off"
  shows "\<exists>k. schedule_loop_iterations i D wk off outer inner =
              Some (outer + k, inner + k * nat wk) \<and> k \<le> nat (D + 1 - i)"
proof (induction "nat (D + 1 - i)" arbitrary: i outer inner rule: less_induct)
  case less
  show ?case
  proof (cases "i \<le> D")
    case True
    then have m: "nat (D + 1 - (i + wk + off)) < nat (D + 1 - i)" using assms by linarith
    from less[OF m, of "Suc outer" "inner + nat wk"]
    obtain k where k: "schedule_loop_iterations (i + wk + off) D wk off (Suc outer)
          (inner + nat wk) = Some (Suc outer + k, inner + nat wk + k * nat wk)"
      and kb: "k \<le> nat (D + 1 - (i + wk + off))"
      by blast
    have "schedule_loop_iterations i D wk off outer inner =
        Some (outer + Suc k, inner + Suc k * nat wk)"
      using True k by (simp add: schedule_loop_iterations_step)
    moreover have "Suc k \<le> nat (D + 1 - i)" using kb m by linarith
    ultimately show ?thesis by blast
  next
    case False
    then have "schedule_loop_iterations i D wk off outer inner =
        Some (outer + 0, inner + 0 * nat wk)"
      by (simp add: schedule_loop_iterations_exit)
    then show ?thesis by blast
  qed
qed

lemma schedule_loop_returns_only_if:
  "schedule_loop h i D wk off cur acc = Some r \<Longrightarrow> D < i \<or> 1 \<le> wk + off"
proof (rule schedule_loop.raw_induct
    [where P = "\<lambda>h i D wk off cur acc r. D < i \<or> 1 \<le> wk + off"])
  fix f h i D wk off cur acc and r :: "Date \<times> string list"
  assume IH: "\<And>h i D wk off cur acc r.
      f h i D wk off cur acc = Some r \<Longrightarrow> D < i \<or> 1 \<le> wk + off"
    and body: "(if i \<le> D then
        (let r = work_days_loop h 1 wk cur acc;
             i1 = i + wk;
             currDate2 = setDate h (fst r) (getDate h (fst r) + off)
         in f h (i1 + off) D wk off currDate2 (snd r))
      else Some (cur, acc)) = Some r"
  show "D < i \<or> 1 \<le> wk + off"
  proof (cases "i \<le> D")
    case True
    then have "D < i + wk + off \<or> 1 \<le> wk + off"
      using body IH[of h "i + wk + off" D wk off] by (simp add: Let_def)
    then show ?thesis using True by linarith
  next
    case False
    then show ?thesis by simp
  qed
qed

lemma schedule_loop_diverges:
  assumes "i \<le> D" "wk + off \<le> 0"
  shows "schedule_loop h i D wk off cur acc = None"
proof (rule ccontr)
  assume "schedule_loop h i D wk off cur acc \<noteq> None"
  then obtain r where "schedule_loop h i D wk off cur acc = Some r" by auto
  then have "D < i \<or> 1 \<le> wk + off" by (rule schedule_loop_returns_only_if)
  then show False using assms by linarith
qed


section \<open>Facts about getWorkSchedule\<close>

lemma Day_MakeDate: "Day (MakeDate d 0) = d"
  by (simp add: Day_def MakeDate_def msPerDay_def)

lemma iso_date_midnight: "iso_date x = Some t \<Longrightarrow> t = Day t * msPerDay"
  by (auto simp: iso_date_def Let_def Day_MakeDate split: if_splits) (simp add: MakeDate_def)

lemma totalDayCount_days:
  "\<lceil>real_of_int (e * msPerDay - s * msPerDay) / 1000 / 3600 / 24\<rceil> = e - s"
proof -
  have a: "e * msPerDay - s * msPerDay = (e - s) * 86400000"
    by (simp add: msPerDay_def algebra_simps)
  have b: "real_of_int ((e - s) * 86400000) / 1000 / 3600 / 24 = real_of_int (e - s)"
    by simp
  show ?thesis unfolding a b by (rule ceiling_of_int)
qed

text \<open>
  A call whose two dates parse, on any host. \<open>period_date\<close> is \<open>period_time\<close> where the
  boundary is a calendar date; then both time values are midnights and \<open>totalDayCount\<close>
  is the difference of the two day numbers.
\<close>

lemma period_time_date: "period_date x = Some t \<Longrightarrow> period_time h x = Some t"
  by (simp add: period_time_def period_date_def Date_parse_def)

lemma getWorkSchedule_times:
  assumes "period_time h (start period) = Some s" "period_time h (end' period) = Some e"
  shows "getWorkSchedule h period wk off =
     (case schedule_loop h 1 \<lceil>real_of_int (e - s) / 1000 / 3600 / 24\<rceil> wk off s [] of
        None \<Rightarrow> None
      | Some (currDate1, scheduale) \<Rightarrow>
          (if currDate1 = e then Some (scheduale @ [transformDate h currDate1])
           else Some scheduale))"
  using assms by (simp add: getWorkSchedule_def period_time_def Let_def)

lemma getWorkSchedule_iterations_times:
  assumes "period_time h (start period) = Some s" "period_time h (end' period) = Some e"
  shows "getWorkSchedule_iterations h period wk off =
     schedule_loop_iterations 1 \<lceil>real_of_int (e - s) / 1000 / 3600 / 24\<rceil> wk off 0 0"
  using assms by (simp add: getWorkSchedule_iterations_def period_time_def Let_def)

lemma period_date_days:
  assumes "period_date x = Some s" "period_date y = Some e"
  shows "\<lceil>real_of_int (e - s) / 1000 / 3600 / 24\<rceil> = Day e - Day s"
proof -
  have s: "s = Day s * msPerDay" and e: "e = Day e * msPerDay"
    using assms iso_date_midnight by (auto simp: period_date_def)
  show ?thesis by (subst e, subst s) (rule totalDayCount_days)
qed

lemma getWorkSchedule_parsed:
  assumes "period_date (start period) = Some s" "period_date (end' period) = Some e"
  shows "getWorkSchedule h period wk off =
     (case schedule_loop h 1 (Day e - Day s) wk off s [] of
        None \<Rightarrow> None
      | Some (currDate1, scheduale) \<Rightarrow>
          (if currDate1 = e then Some (scheduale @ [transformDate h currDate1])
           else Some scheduale))"
  unfolding getWorkSchedule_times[OF assms[THEN period_time_date]] period_date_days[OF assms]
  by (rule refl)

lemma getWorkSchedule_iterations_parsed:
  assumes "period_date (start period) = Some s" "period_date (end' period) = Some e"
  shows "getWorkSchedule_iterations h period wk off =
     schedule_loop_iterations 1 (Day e - Day s) wk off 0 0"
  unfolding getWorkSchedule_iterations_times[OF assms[THEN period_time_date]]
    period_date_days[OF assms]
  by (rule refl)

lemma Day_mono: "s \<le> e \<Longrightarrow> Day s \<le> Day e"
  by (simp add: Day_def msPerDay_def zdiv_mono1)

lemma totalDayCount_sign:
  "e \<le> s \<Longrightarrow> \<not> 1 \<le> \<lceil>real_of_int (e - s) / 1000 / 3600 / 24\<rceil>"
  "s < e \<Longrightarrow> 1 \<le> \<lceil>real_of_int (e - s) / 1000 / 3600 / 24\<rceil>"
proof -
  assume "e \<le> s"
  then have "real_of_int (e - s) / 1000 / 3600 / 24 \<le> 0" by simp
  then have "\<lceil>real_of_int (e - s) / 1000 / 3600 / 24\<rceil> \<le> 0" by (simp only: ceiling_le_zero)
  then show "\<not> 1 \<le> \<lceil>real_of_int (e - s) / 1000 / 3600 / 24\<rceil>" by simp
next
  assume "s < e"
  then have "0 < real_of_int (e - s) / 1000 / 3600 / 24" by simp
  then have "0 < \<lceil>real_of_int (e - s) / 1000 / 3600 / 24\<rceil>" by (simp only: zero_less_ceiling)
  then show "1 \<le> \<lceil>real_of_int (e - s) / 1000 / 3600 / 24\<rceil>" by simp
qed

lemma getWorkSchedule_start_after_end:
  assumes "period_time h (start period) = Some s" "period_time h (end' period) = Some e"
    "e < s"
  shows "getWorkSchedule h period wk off = Some []"
proof -
  have "\<not> 1 \<le> \<lceil>real_of_int (e - s) / 1000 / 3600 / 24\<rceil>"
    using assms(3) by (intro totalDayCount_sign(1)) simp
  then show ?thesis
    using assms(3) by (simp add: getWorkSchedule_times[OF assms(1,2)] schedule_loop_exit)
qed

lemma getWorkSchedule_same_day:
  assumes "period_time h (start period) = Some s" "period_time h (end' period) = Some s"
  shows "getWorkSchedule h period wk off = Some [transformDate h s]"
  by (simp add: getWorkSchedule_times[OF assms] schedule_loop_exit)

lemma getWorkSchedule_returns:
  assumes "period_time h (start period) = Some s" "period_time h (end' period) = Some e"
    "1 \<le> wk + off"
  shows "\<exists>xs. getWorkSchedule h period wk off = Some xs"
proof -
  obtain r where
    "schedule_loop h 1 \<lceil>real_of_int (e - s) / 1000 / 3600 / 24\<rceil> wk off s [] = Some r"
    using schedule_loop_terminates[OF assms(3)] by blast
  then show ?thesis
    by (cases r) (simp add: getWorkSchedule_times[OF assms(1,2)])
qed

lemma getWorkSchedule_never_returns:
  assumes "period_time h (start period) = Some s" "period_time h (end' period) = Some e"
    "s < e" "wk + off \<le> 0"
  shows "getWorkSchedule h period wk off = None"
proof -
  have "1 \<le> \<lceil>real_of_int (e - s) / 1000 / 3600 / 24\<rceil>"
    using assms(3) by (rule totalDayCount_sign(2))
  then have
    "schedule_loop h 1 \<lceil>real_of_int (e - s) / 1000 / 3600 / 24\<rceil> wk off s [] = None"
    using assms(4) by (rule schedule_loop_diverges)
  then show ?thesis by (simp add: getWorkSchedule_times[OF assms(1,2)])
qed

section \<open>Facts about the strings\<close>

lemma digit_nth:
  assumes "k < 10"
  shows "is_digit (''0123456789'' ! k)" "digit_value (''0123456789'' ! k) = int k"
  using assms
  by (auto simp: is_digit_def digit_value_def less_Suc_eq eval_nat_numeral)

lemma is_digit_not_dash: "is_digit c \<Longrightarrow> c \<noteq> CHR ''-''"
  by (auto simp: is_digit_def)

lemma number_of_snoc: "number_of (xs @ [c]) = 10 * number_of xs + digit_value c"
  by (simp add: number_of_def)

lemma number_of_single: "number_of [c] = digit_value c"
  by (simp add: number_of_def)

lemma digits_all_digit: "list_all is_digit (digits n)"
proof (induction n rule: digits.induct)
  case (1 n)
  show ?case
  proof (cases "n < 10")
    case True
    then show ?thesis by (subst digits.simps) (simp add: digit_nth)
  next
    case False
    then show ?thesis using 1 by (subst digits.simps) (simp add: digit_nth)
  qed
qed

lemma digits_not_empty: "digits n \<noteq> []"
  by (subst digits.simps) simp

lemma number_of_digits: "number_of (digits n) = int n"
proof (induction n rule: digits.induct)
  case (1 n)
  show ?case
  proof (cases "n < 10")
    case True
    then show ?thesis by (subst digits.simps) (simp add: digit_nth number_of_single)
  next
    case False
    then have "number_of (digits n) = 10 * int (n div 10) + int (n mod 10)"
      using 1 by (subst digits.simps) (simp add: digit_nth number_of_snoc)
    also have "\<dots> = int n" by (simp add: zdiv_int zmod_int)
    finally show ?thesis .
  qed
qed

lemma number_of_zero_Cons: "number_of (CHR ''0'' # s) = number_of s"
  by (simp add: number_of_def digit_value_def)

lemma number_of_replicate_zero: "number_of (replicate k CHR ''0'' @ s) = number_of s"
  by (induction k) (simp_all add: number_of_zero_Cons)

lemma replicate_zero_digits: "list_all is_digit (replicate k CHR ''0'')"
  by (induction k) (simp_all add: is_digit_def)

lemma padded_number:
  assumes "0 \<le> n"
  shows "list_all is_digit (padStart (String_of_int n) 2 CHR ''0'')"
    and "padStart (String_of_int n) 2 CHR ''0'' \<noteq> []"
    and "number_of (padStart (String_of_int n) 2 CHR ''0'') = n"
  using assms
  by (simp_all add: padStart_def String_of_int_def digits_all_digit digits_not_empty
      number_of_replicate_zero number_of_digits replicate_zero_digits)

lemma year_number:
  assumes "0 \<le> n"
  shows "list_all is_digit (String_of_int n)" "String_of_int n \<noteq> []"
    "number_of (String_of_int n) = n"
  using assms
  by (simp_all add: String_of_int_def digits_all_digit digits_not_empty number_of_digits)

lemma split_no_sep: "sep \<notin> set a \<Longrightarrow> split a sep = [a]"
  by (induction a) auto

lemma split_append_sep: "sep \<notin> set a \<Longrightarrow> split (a @ sep # b) sep = a # split b sep"
  by (induction a) auto

lemma digits_no_dash: "list_all is_digit s \<Longrightarrow> CHR ''-'' \<notin> set s"
  using is_digit_not_dash by (auto simp: list_all_iff)

lemma split_three_fields:
  assumes "list_all is_digit a" "list_all is_digit b" "list_all is_digit c"
  shows "split (a @ ''-'' @ b @ ''-'' @ c) CHR ''-'' = [a, b, c]"
  using assms by (simp add: split_append_sep split_no_sep digits_no_dash)

lemma split_four_fields:
  assumes "list_all is_digit a" "list_all is_digit b" "list_all is_digit c"
  shows "split (a @ ''-'' @ b @ ''-'' @ CHR ''-'' # c) CHR ''-'' = [a, b, [], c]"
  using assms by (simp add: split_append_sep split_no_sep digits_no_dash)

text \<open>
  The string \<^verbatim>\<open>transformDate\<close> builds from a local time denotes the calendar day of
  that local time, in every year.
\<close>

lemma calendar_day_date_text: "calendar_day (date_text u) = Some (Day u)"
proof -
  let ?d = "padStart (String_of_int (DateFromTime u)) 2 CHR ''0''"
  let ?m = "padStart (String_of_int (MonthFromTime u + 1)) 2 CHR ''0''"
  have d0: "0 \<le> DateFromTime u" using DateFromTime_range[of u] by simp
  have m0: "0 \<le> MonthFromTime u + 1" using MonthFromTime_range[of u] by simp
  have day: "MakeDay (YearFromTime u) (MonthFromTime u) (DateFromTime u) = Day u"
    using MakeDay_fields[of u 0] by simp
  show ?thesis
  proof (cases "0 \<le> YearFromTime u")
    case True
    let ?y = "String_of_int (YearFromTime u)"
    have sp: "split (date_text u) CHR ''-'' = [?d, ?m, ?y]"
      unfolding date_text_def
      by (rule split_three_fields)
        (rule padded_number(1)[OF d0] padded_number(1)[OF m0] year_number(1)[OF True])+
    have mk: "MakeDay (number_of ?y) (number_of ?m - 1) (number_of ?d) = Day u"
      by (simp add: padded_number(3)[OF d0] padded_number(3)[OF m0] year_number(3)[OF True]
          day)
    show ?thesis
      unfolding calendar_day_def sp
      using padded_number(1,2)[OF d0] padded_number(1,2)[OF m0] year_number(1,2)[OF True] mk
      by simp
  next
    case False
    let ?y = "digits (nat (- YearFromTime u))"
    have yr: "String_of_int (YearFromTime u) = CHR ''-'' # ?y"
      using False by (simp add: String_of_int_def)
    have sp: "split (date_text u) CHR ''-'' = [?d, ?m, [], ?y]"
      unfolding date_text_def yr
      by (rule split_four_fields)
        (rule padded_number(1)[OF d0] padded_number(1)[OF m0] digits_all_digit)+
    have "number_of ?y = - YearFromTime u" using False by (simp add: number_of_digits)
    then have mk: "MakeDay (- number_of ?y) (number_of ?m - 1) (number_of ?d) = Day u"
      by (simp add: padded_number(3)[OF d0] padded_number(3)[OF m0] day)
    show ?thesis
      unfolding calendar_day_def sp
      using padded_number(1,2)[OF d0] padded_number(1,2)[OF m0] digits_all_digit[of "nat (- YearFromTime u)"]
        digits_not_empty[of "nat (- YearFromTime u)"] mk
      by simp
  qed
qed

lemma calendar_day_transformDate:
  assumes "LocalTZA h = (\<lambda>t isUTC. z)"
  shows "calendar_day (transformDate h t) = Some (Day (t + z))"
  unfolding transformDate_date_text[OF assms] by (rule calendar_day_date_text)

section \<open>Facts about the dates a schedule holds\<close>

lemma digit_value_nonneg: "is_digit c \<Longrightarrow> 0 \<le> digit_value c"
  by (auto simp: is_digit_def digit_value_def)

lemma number_of_nonneg: "list_all is_digit s \<Longrightarrow> 0 \<le> number_of s"
proof (induction s rule: rev_induct)
  case Nil
  then show ?case by (simp add: number_of_def)
next
  case (snoc c s)
  then show ?case using digit_value_nonneg[of c] by (simp add: number_of_snoc)
qed

lemma Day_add_days: "Day (t + k * msPerDay) = Day t + k"
  by (simp add: Day_def msPerDay_def)

lemma calendar_day_schedule:
  assumes "LocalTZA h = (\<lambda>t isUTC. z)"
  shows "map calendar_day (map (\<lambda>k. transformDate h (s + k * msPerDay)) ks) =
         map Some (map (\<lambda>k. Day (s + z) + k) ks)"
proof -
  have "calendar_day (transformDate h (s + k * msPerDay)) = Some (Day (s + z) + k)" for k
    using Day_add_days[of "s + z" k]
    by (simp add: calendar_day_transformDate[OF assms] add.assoc add.commute[of z])
  then show ?thesis by simp
qed




section \<open>Facts about getCountWeekendsInMonth\<close>

lemma month_index_cases:
  assumes "0 \<le> m" "m \<le> 11"
  shows "m = 0 \<or> m = 1 \<or> m = 2 \<or> m = 3 \<or> m = 4 \<or> m = 5 \<or> m = 6 \<or> m = 7 \<or> m = 8
         \<or> m = 9 \<or> m = 10 \<or> m = (11::int)"
  using assms by arith

lemma MakeDay_in_year:
  "0 \<le> m \<Longrightarrow> m \<le> 11 \<Longrightarrow> MakeDay y m d = DayFromYear y + month_start y m + d - 1"
  by (simp add: MakeDay_def Let_def)

lemma day_within_year_of_fields:
  assumes "0 \<le> m" "m \<le> 11" "1 \<le> d" "d \<le> DaysInMonth y (m + 1)"
  shows "0 \<le> month_start y m + d - 1" "month_start y m + d - 1 < DaysInYear y"
  using month_index_cases[OF assms(1,2)] assms(3,4) DaysInYear_cases[of y]
  by (elim disjE; simp add: month_start_def DaysInMonth_def Let_def)+

text \<open>
  The calendar fields of a day built from a year, a month 0..11 and a day of that month.
\<close>

lemma fields_of_MakeDay:
  assumes "0 \<le> m" "m \<le> 11" "1 \<le> d" "d \<le> DaysInMonth y (m + 1)"
    and "Day t = MakeDay y m d"
  shows "YearFromTime t = y" "MonthFromTime t = m" "DateFromTime t = d"
proof -
  have day: "Day t = DayFromYear y + month_start y m + d - 1"
    using assms(5) MakeDay_in_year[OF assms(1,2)] by simp
  note rng = day_within_year_of_fields[OF assms(1-4)]
  show yr: "YearFromTime t = y"
    using day rng by (intro YearFromTime_unique) (simp_all add: DayFromYear_Suc)
  have dwy: "DayWithinYear t = month_start y m + d - 1"
    by (simp add: DayWithinYear_def yr day)
  have leap: "InLeapYear t = (if DaysInYear y = 366 then 1 else 0)"
    by (simp add: InLeapYear_def yr)
  show mo: "MonthFromTime t = m"
    unfolding MonthFromTime_def Let_def dwy leap
    using month_index_cases[OF assms(1,2)] assms(3,4) DaysInYear_cases[of y]
    by (elim disjE; simp add: month_start_def DaysInMonth_def Let_def)
  show "DateFromTime t = d"
    unfolding DateFromTime_def Let_def dwy leap mo
    using month_index_cases[OF assms(1,2)]
    by (elim disjE; simp add: month_start_def Let_def)
qed


















section \<open>Facts about reading a date and writing it again\<close>

lemma split_not_empty: "split s sep \<noteq> []"
  by (induction s) (auto split: list.splits)

lemma split_parts_no_sep: "p \<in> set (split s sep) \<Longrightarrow> sep \<notin> set p"
proof (induction s arbitrary: p)
  case Nil
  then show ?case by simp
next
  case (Cons x xs)
  show ?case
  proof (cases "x = sep")
    case True
    then show ?thesis using Cons by auto
  next
    case False
    obtain w ws where w: "split xs sep = w # ws"
      using split_not_empty[of xs sep] by (cases "split xs sep") auto
    then show ?thesis using Cons False by auto
  qed
qed

lemma join_split: "join (split s sep) [sep] = s"
proof (induction s)
  case Nil
  then show ?case by simp
next
  case (Cons x xs)
  obtain w ws where w: "split xs sep = w # ws"
    using split_not_empty[of xs sep] by (cases "split xs sep") auto
  show ?case
  proof (cases "x = sep")
    case True
    then show ?thesis using Cons w by simp
  next
    case False
    then show ?thesis using Cons w by (cases ws) simp_all
  qed
qed

lemma split_join:
  "ps \<noteq> [] \<Longrightarrow> \<forall>p \<in> set ps. sep \<notin> set p \<Longrightarrow> split (join ps [sep]) sep = ps"
proof (induction ps "[sep]" rule: join.induct)
  case 1
  then show ?case by simp
next
  case (2 x)
  then show ?case by (simp add: split_no_sep)
next
  case (3 x y zs)
  then show ?case by (simp add: split_append_sep)
qed

lemma iso_date_shape:
  assumes "length x = 10" "x ! 4 = CHR ''-''" "x ! 7 = CHR ''-''"
  shows "x = take 4 x @ ''-'' @ take 2 (drop 5 x) @ ''-'' @ drop 8 x"
proof -
  have a: "x = take 4 x @ x ! 4 # drop 5 x"
    using id_take_nth_drop[of 4 x] assms(1) by simp
  have b: "drop 5 x = take 2 (drop 5 x) @ (drop 5 x) ! 2 # drop 3 (drop 5 x)"
    using id_take_nth_drop[of 2 "drop 5 x"] assms(1) by simp
  have c: "(drop 5 x) ! 2 = x ! 7" using assms(1) by simp
  have "x = take 4 x @ x ! 4 # take 2 (drop 5 x) @ (drop 5 x) ! 2 # drop 3 (drop 5 x)"
    using a b by simp
  then show ?thesis using assms(2,3) c by simp
qed

text \<open>
  A period date that parses is two digits, a dash, two digits, a dash and four digits,
  and its time value is built from the three numbers.
\<close>

lemma period_date_shape:
  assumes "period_date str = Some t"
  shows "\<exists>dd mm yyyy. str = dd @ ''-'' @ mm @ ''-'' @ yyyy
          \<and> length dd = 2 \<and> length mm = 2 \<and> length yyyy = 4
          \<and> list_all is_digit dd \<and> list_all is_digit mm \<and> list_all is_digit yyyy
          \<and> 1 \<le> number_of mm \<and> number_of mm \<le> 12 \<and> 1 \<le> number_of dd
          \<and> number_of dd \<le> DaysInMonth (number_of yyyy) (number_of mm)
          \<and> t = MakeDate (MakeDay (number_of yyyy) (number_of mm - 1) (number_of dd)) 0"
proof -
  define x where "x = join (rev (split str CHR ''-'')) ''-''"
  define yyyy where "yyyy = take 4 x"
  define mm where "mm = take 2 (drop 5 x)"
  define dd where "dd = drop 8 x"
  have p: "iso_date x = Some t" using assms by (simp add: period_date_def x_def)
  have len: "length x = 10" and d4: "x ! 4 = CHR ''-''" and d7: "x ! 7 = CHR ''-''"
    and dig: "list_all is_digit (yyyy @ mm @ dd)"
    and ok: "1 \<le> number_of mm" "number_of mm \<le> 12" "1 \<le> number_of dd"
      "number_of dd \<le> DaysInMonth (number_of yyyy) (number_of mm)"
    and t: "t = MakeDate (MakeDay (number_of yyyy) (number_of mm - 1) (number_of dd)) 0"
    using p unfolding yyyy_def mm_def dd_def
    by (auto simp: iso_date_def Let_def split: if_splits)
  have digs: "list_all is_digit yyyy" "list_all is_digit mm" "list_all is_digit dd"
    using dig by simp_all
  have lens: "length dd = 2" "length mm = 2" "length yyyy = 4"
    using len by (simp_all add: dd_def mm_def yyyy_def)
  have x: "x = yyyy @ ''-'' @ mm @ ''-'' @ dd"
    unfolding yyyy_def mm_def dd_def using len d4 d7 by (rule iso_date_shape)
  have sx: "split x CHR ''-'' = [yyyy, mm, dd]"
    by (subst x) (rule split_three_fields[OF digs])
  have ne: "rev (split str CHR ''-'') \<noteq> []" by (simp add: split_not_empty)
  have ns: "\<forall>p \<in> set (rev (split str CHR ''-'')). CHR ''-'' \<notin> set p"
    using split_parts_no_sep by auto
  have "split x CHR ''-'' = rev (split str CHR ''-'')"
    unfolding x_def using split_join[OF ne ns] by simp
  then have "split str CHR ''-'' = [dd, mm, yyyy]"
    using sx by (metis rev.simps rev_rev_ident append_Nil append_Cons)
  then have "str = join [dd, mm, yyyy] ''-''"
    using join_split[of str "CHR ''-''"] by simp
  then have "str = dd @ ''-'' @ mm @ ''-'' @ yyyy" by simp
  then show ?thesis using lens digs ok t by blast
qed

lemma digit_of_value:
  assumes "is_digit c"
  shows "''0123456789'' ! nat (digit_value c) = c" "0 \<le> digit_value c" "digit_value c < 10"
  using assms by (auto simp: is_digit_def digit_value_def)

lemma digit_value_pos: "is_digit c \<Longrightarrow> c \<noteq> CHR ''0'' \<Longrightarrow> 0 < digit_value c"
  by (auto simp: is_digit_def digit_value_def)

lemma digits_small: "k < 10 \<Longrightarrow> digits k = [''0123456789'' ! k]"
  by (subst digits.simps) simp

lemma digits_snoc:
  assumes "0 < n" "k < 10"
  shows "digits (10 * n + k) = digits n @ [''0123456789'' ! k]"
proof -
  have "\<not> 10 * n + k < 10" using assms(1) by simp
  moreover have "(10 * n + k) div 10 = n" "(10 * n + k) mod 10 = k" using assms(2) by simp_all
  ultimately show ?thesis by (subst digits.simps) simp
qed

lemma digits_number_of:
  assumes "s \<noteq> []" "list_all is_digit s" "hd s \<noteq> CHR ''0''"
  shows "digits (nat (number_of s)) = s \<and> 0 < number_of s"
  using assms
proof (induction s rule: rev_induct)
  case Nil
  then show ?case by simp
next
  case (snoc c xs)
  have c: "is_digit c" using snoc.prems(2) by simp
  note cv = digit_of_value[OF c]
  show ?case
  proof (cases "xs = []")
    case True
    then have "c \<noteq> CHR ''0''" using snoc.prems(3) by simp
    then have "0 < digit_value c" using c by (rule digit_value_pos[rotated])
    moreover have "nat (digit_value c) < 10" using cv by simp
    ultimately show ?thesis
      using True cv by (simp add: number_of_single digits_small)
  next
    case False
    then have "hd xs \<noteq> CHR ''0''" using snoc.prems(3) by simp
    then have IH: "digits (nat (number_of xs)) = xs" "0 < number_of xs"
      using snoc.IH False snoc.prems(2) by simp_all
    have "nat (number_of (xs @ [c])) = 10 * nat (number_of xs) + nat (digit_value c)"
      using IH(2) cv by (simp add: number_of_snoc nat_add_distrib nat_mult_distrib)
    moreover have "0 < nat (number_of xs)" "nat (digit_value c) < 10" using IH(2) cv by simp_all
    ultimately have "digits (nat (number_of (xs @ [c]))) = xs @ [c]"
      using IH(1) cv(1) by (simp add: digits_snoc)
    moreover have "0 < number_of (xs @ [c])" using IH(2) cv by (simp add: number_of_snoc)
    ultimately show ?thesis by simp
  qed
qed

lemma number_of_bound: "list_all is_digit s \<Longrightarrow> number_of s < 10 ^ length s"
proof (induction s rule: rev_induct)
  case Nil
  then show ?case by (simp add: number_of_def)
next
  case (snoc c xs)
  then have "number_of xs + 1 \<le> 10 ^ length xs" "digit_value c < 10"
    using digit_of_value(3)[of c] by simp_all
  then show ?case by (simp add: number_of_snoc)
qed

lemma padded_two_digits:
  assumes "length dd = 2" "list_all is_digit dd"
  shows "padStart (String_of_int (number_of dd)) 2 CHR ''0'' = dd"
proof -
  obtain a b where dd: "dd = [a, b]"
    using assms(1) by (auto simp: length_Suc_conv eval_nat_numeral)
  have b: "is_digit b" using assms(2) dd by simp
  have nn: "\<not> number_of dd < 0" using number_of_nonneg[OF assms(2)] by simp
  show ?thesis
  proof (cases "a = CHR ''0''")
    case True
    have "number_of dd = digit_value b"
      using True dd by (simp add: number_of_zero_Cons number_of_single)
    moreover have "digits (nat (digit_value b)) = [b]"
      using digit_of_value[OF b] by (simp add: digits_small)
    ultimately show ?thesis
      using True dd digit_of_value(2)[OF b] by (simp add: padStart_def String_of_int_def)
  next
    case False
    then have "digits (nat (number_of dd)) = dd"
      using digits_number_of[of dd] assms(2) dd by simp
    then show ?thesis
      using nn assms(1) by (simp add: padStart_def String_of_int_def)
  qed
qed

lemma year_four_digits:
  assumes "length yyyy = 4" "list_all is_digit yyyy" "1000 \<le> number_of yyyy"
  shows "String_of_int (number_of yyyy) = yyyy"
proof -
  obtain a r where y: "yyyy = a # r" and r: "length r = 3"
    using assms(1) by (auto simp: length_Suc_conv eval_nat_numeral)
  have "a \<noteq> CHR ''0''"
  proof
    assume "a = CHR ''0''"
    then have "number_of yyyy = number_of r" using y by (simp add: number_of_zero_Cons)
    moreover have "number_of r < 10 ^ length r"
      using assms(2) y by (intro number_of_bound) simp
    ultimately show False using assms(3) r by simp
  qed
  then have "digits (nat (number_of yyyy)) = yyyy"
    using digits_number_of[of yyyy] assms(2) y by simp
  then show ?thesis using assms(3) by (simp add: String_of_int_def)
qed

text \<open>
  From year 1000 on, what \<^verbatim>\<open>transformDate\<close> writes for a local time on the day of a
  period date is the string the date was read from.
\<close>

lemma date_text_period_date:
  assumes "period_date str = Some t" "Day u = Day t" "1000 \<le> YearFromTime u"
  shows "date_text u = str"
proof -
  obtain dd mm yyyy where str: "str = dd @ ''-'' @ mm @ ''-'' @ yyyy"
    and len: "length dd = 2" "length mm = 2" "length yyyy = 4"
    and dig: "list_all is_digit dd" "list_all is_digit mm" "list_all is_digit yyyy"
    and m: "1 \<le> number_of mm" "number_of mm \<le> 12"
    and d: "1 \<le> number_of dd" "number_of dd \<le> DaysInMonth (number_of yyyy) (number_of mm)"
    and t: "t = MakeDate (MakeDay (number_of yyyy) (number_of mm - 1) (number_of dd)) 0"
    using period_date_shape[OF assms(1)] by blast
  have m': "0 \<le> number_of mm - 1" "number_of mm - 1 \<le> 11" using m by simp_all
  have d': "number_of dd \<le> DaysInMonth (number_of yyyy) (number_of mm - 1 + 1)"
    using d(2) by simp
  have day: "Day u = MakeDay (number_of yyyy) (number_of mm - 1) (number_of dd)"
    unfolding assms(2) t by (rule Day_MakeDate)
  note f = fields_of_MakeDay[OF m' d(1) d' day]
  have y: "1000 \<le> number_of yyyy" using assms(3) f(1) by simp
  have "date_text u =
      padStart (String_of_int (number_of dd)) 2 CHR ''0'' @ ''-''
      @ padStart (String_of_int (number_of mm)) 2 CHR ''0'' @ ''-''
      @ String_of_int (number_of yyyy)"
    by (simp add: date_text_def f)
  also have "\<dots> = dd @ ''-'' @ mm @ ''-'' @ yyyy"
    by (simp only: padded_two_digits[OF len(1) dig(1)] padded_two_digits[OF len(2) dig(2)]
        year_four_digits[OF len(3) dig(3) y])
  finally show ?thesis using str by simp
qed

section \<open>Facts about the dates within the period\<close>

text \<open>
  A run of the outer loop, in full: the days pushed, counted from \<open>cur\<close>, are those of
  the work blocks before the day \<open>c\<close> the loop ends on, and \<open>c\<close> is the first multiple
  of \<open>workDays + offDays\<close> that takes the counter \<open>i\<close> past \<open>totalDayCount\<close>.
\<close>

lemma schedule_loop_blocks:
  assumes tz: "LocalTZA h = (\<lambda>t isUTC. z)"
  assumes "1 \<le> wk" "1 \<le> off"
  shows "\<exists>ks c. schedule_loop h i D wk off cur acc =
            Some (cur + c * msPerDay, acc @ map (\<lambda>k. transformDate h (cur + k * msPerDay)) ks)
          \<and> sorted_wrt (<) ks
          \<and> set ks = {k. 0 \<le> k \<and> k < c \<and> k mod (wk + off) < wk}
          \<and> 0 \<le> c \<and> c mod (wk + off) = 0 \<and> D < i + c
          \<and> (c = 0 \<or> i + c - (wk + off) \<le> D)"
proof (induction "nat (D + 1 - i)" arbitrary: i cur acc rule: less_induct)
  case less
  let ?p = "wk + off"
  have p: "0 < ?p" using assms by simp
  show ?case
  proof (cases "i \<le> D")
    case False
    have "schedule_loop h i D wk off cur acc =
            Some (cur + 0 * msPerDay, acc @ map (\<lambda>k. transformDate h (cur + k * msPerDay)) [])"
      using False by (simp add: schedule_loop_exit)
    moreover have "set [] = {k. 0 \<le> k \<and> k < 0 \<and> k mod ?p < wk}" by auto
    ultimately show ?thesis using False
      by (intro exI[of _ "[]"] exI[of _ 0]) simp
  next
    case True
    let ?cur = "cur + int (nat wk) * msPerDay + off * msPerDay"
    let ?acc = "acc @ map (\<lambda>k. transformDate h (cur + int k * msPerDay)) [0..<nat wk]"
    have "nat (D + 1 - (i + wk + off)) < nat (D + 1 - i)" using True assms by linarith
    from less[OF this, of ?cur ?acc]
    obtain ks c where H: "schedule_loop h (i + wk + off) D wk off ?cur ?acc =
          Some (?cur + c * msPerDay, ?acc @ map (\<lambda>k. transformDate h (?cur + k * msPerDay)) ks)
        \<and> sorted_wrt (<) ks
        \<and> set ks = {k. 0 \<le> k \<and> k < c \<and> k mod ?p < wk}
        \<and> 0 \<le> c \<and> c mod ?p = 0 \<and> D < i + wk + off + c
        \<and> (c = 0 \<or> i + wk + off + c - ?p \<le> D)"
      by (elim exE) (rule that)
    note run = H[THEN conjunct1]
    note srt = H[THEN conjunct2, THEN conjunct1]
    note st = H[THEN conjunct2, THEN conjunct2, THEN conjunct1]
    note c0 = H[THEN conjunct2, THEN conjunct2, THEN conjunct2, THEN conjunct1]
    note cm = H[THEN conjunct2, THEN conjunct2, THEN conjunct2, THEN conjunct2, THEN conjunct1]
    note cD = H[THEN conjunct2, THEN conjunct2, THEN conjunct2, THEN conjunct2, THEN conjunct2,
        THEN conjunct1]
    note cL = H[THEN conjunct2, THEN conjunct2, THEN conjunct2, THEN conjunct2, THEN conjunct2,
        THEN conjunct2]
    let ?ks = "map int [0..<nat wk] @ map (\<lambda>k. k + ?p) ks"
    let ?c = "c + ?p"
    have e1: "?cur + c * msPerDay = cur + ?c * msPerDay"
      using assms by (simp add: algebra_simps)
    have e2: "?acc @ map (\<lambda>k. transformDate h (?cur + k * msPerDay)) ks =
              acc @ map (\<lambda>k. transformDate h (cur + k * msPerDay)) ?ks"
      using assms by (simp add: comp_def algebra_simps)
    have res: "schedule_loop h i D wk off cur acc =
            Some (cur + ?c * msPerDay, acc @ map (\<lambda>k. transformDate h (cur + k * msPerDay)) ?ks)"
      using run by (simp only: schedule_loop_step[OF tz True] e1 e2)
    have s1: "sorted_wrt (<) (map int [0..<nat wk])"
      by (simp add: sorted_wrt_map sorted_wrt_upt del: upt.simps)
    have s2: "sorted_wrt (<) (map (\<lambda>k. k + ?p) ks)"
      using srt by (simp add: sorted_wrt_map)
    have mem: "j \<in> set ks \<longleftrightarrow> 0 \<le> j \<and> j < c \<and> j mod ?p < wk" for j
      unfolding st by simp
    have s3: "\<forall>x \<in> set (map int [0..<nat wk]). \<forall>y \<in> set (map (\<lambda>k. k + ?p) ks). x < y"
    proof (intro ballI)
      fix x y
      assume "x \<in> set (map int [0..<nat wk])" and "y \<in> set (map (\<lambda>k. k + ?p) ks)"
      then obtain j where x: "x < wk" and j: "j \<in> set ks" "y = j + ?p" by auto
      then have "0 \<le> j" using mem by simp
      then show "x < y" using x j(2) assms by simp
    qed
    have srt': "sorted_wrt (<) ?ks"
      using s1 s2 s3 by (simp only: sorted_wrt_append)
    have first: "set (map int [0..<nat wk]) = {k. 0 \<le> k \<and> k < wk}"
    proof (intro set_eqI iffI)
      fix k assume "k \<in> set (map int [0..<nat wk])"
      then show "k \<in> {k. 0 \<le> k \<and> k < wk}" by auto
    next
      fix k assume "k \<in> {k. 0 \<le> k \<and> k < wk}"
      then have "nat k \<in> {0..<nat wk}" "int (nat k) = k" by simp_all
      then have "k \<in> int ` {0..<nat wk}" by (metis imageI)
      then show "k \<in> set (map int [0..<nat wk])" by simp
    qed
    have st': "set ?ks = {k. 0 \<le> k \<and> k < ?c \<and> k mod ?p < wk}"
    proof (intro set_eqI iffI)
      fix k assume "k \<in> set ?ks"
      then consider "0 \<le> k" "k < wk" | j where "j \<in> set ks" "k = j + ?p"
        using first by auto
      then show "k \<in> {k. 0 \<le> k \<and> k < ?c \<and> k mod ?p < wk}"
      proof cases
        case 1
        then have "k mod ?p = k" using assms by simp
        then show ?thesis using 1 c0 assms by simp
      next
        case 2
        then have j: "0 \<le> j" "j < c" "j mod ?p < wk" using mem by simp_all
        have "k mod ?p = j mod ?p" unfolding 2(2) by simp
        then show ?thesis using j 2(2) p by simp
      qed
    next
      fix k assume "k \<in> {k. 0 \<le> k \<and> k < ?c \<and> k mod ?p < wk}"
      then have k: "0 \<le> k" "k < ?c" "k mod ?p < wk" by simp_all
      show "k \<in> set ?ks"
      proof (cases "k < ?p")
        case True
        then have "k mod ?p = k" using k(1) by simp
        then have "k \<in> {k. 0 \<le> k \<and> k < wk}" using k by simp
        then show ?thesis using first by simp
      next
        case False
        have "(k - ?p) mod ?p = k mod ?p" by simp
        then have "k - ?p \<in> set ks" using mem[of "k - ?p"] k False by simp
        then have "(\<lambda>k. k + ?p) (k - ?p) \<in> (\<lambda>k. k + ?p) ` set ks" by (rule imageI)
        then show ?thesis by simp
      qed
    qed
    have cm': "?c mod ?p = 0" using cm by simp
    have "0 \<le> ?c" "D < i + ?c" "?c = 0 \<or> i + ?c - ?p \<le> D"
      using c0 p cD cL True by auto
    then show ?thesis
      using res srt' st' cm' by (intro exI[of _ ?ks] exI[of _ ?c]) simp
  qed
qed

lemma Day_same_day:
  assumes "t = Day t * msPerDay" "0 \<le> z" "z < msPerDay"
  shows "Day (t + z) = Day t"
proof -
  have "(z + Day t * msPerDay) div msPerDay = z div msPerDay + Day t"
    using msPerDay_pos by simp
  moreover have "z div msPerDay = 0" using assms(2,3) by simp
  ultimately have "(Day t * msPerDay + z) div msPerDay = Day t" by (simp add: add.commute)
  then show ?thesis using assms(1) by (simp add: Day_def)
qed

text \<open>
  On a host on UTC or east of it by less than a day, for a period with start \<open>\<le>\<close> end
  and \<open>workDays \<ge> 1\<close>, \<open>offDays \<ge> 1\<close>: the strings returned denote days in increasing
  order, and those of them that are not after the end are the days of the period whose
  offset from the start is below \<open>workDays\<close> modulo \<open>workDays + offDays\<close>. What the array
  holds besides lies after the end.
\<close>

lemma getWorkSchedule_within_period:
  assumes tz: "LocalTZA h = (\<lambda>t isUTC. z)" and z: "0 \<le> z" "z < msPerDay"
  assumes "period_date (start period) = Some s" "period_date (end' period) = Some e"
    and "s \<le> e" "1 \<le> wk" "1 \<le> off"
  shows "\<exists>xs days. getWorkSchedule h period wk off = Some xs
            \<and> map calendar_day xs = map Some days \<and> sorted_wrt (<) days
            \<and> {d \<in> set days. d \<le> Day e} =
                {d. Day s \<le> d \<and> d \<le> Day e \<and> (d - Day s) mod (wk + off) < wk}"
proof -
  let ?p = "wk + off"
  let ?D = "Day e - Day s"
  have sm: "s = Day s * msPerDay" and em: "e = Day e * msPerDay"
    using assms iso_date_midnight by (auto simp: period_date_def)
  have D0: "0 \<le> ?D" using Day_mono[OF assms(6)] by simp
  from schedule_loop_blocks[OF tz assms(7,8), of 1 ?D s "[]"]
  obtain ks c where H: "schedule_loop h 1 ?D wk off s [] =
        Some (s + c * msPerDay, [] @ map (\<lambda>k. transformDate h (s + k * msPerDay)) ks)
      \<and> sorted_wrt (<) ks
      \<and> set ks = {k. 0 \<le> k \<and> k < c \<and> k mod ?p < wk}
      \<and> 0 \<le> c \<and> c mod ?p = 0 \<and> ?D < 1 + c
      \<and> (c = 0 \<or> 1 + c - ?p \<le> ?D)"
    by (elim exE) (rule that)
  note run = H[THEN conjunct1]
  note srt = H[THEN conjunct2, THEN conjunct1]
  note st = H[THEN conjunct2, THEN conjunct2, THEN conjunct1]
  note c0 = H[THEN conjunct2, THEN conjunct2, THEN conjunct2, THEN conjunct1]
  note cm = H[THEN conjunct2, THEN conjunct2, THEN conjunct2, THEN conjunct2, THEN conjunct1]
  note cD = H[THEN conjunct2, THEN conjunct2, THEN conjunct2, THEN conjunct2, THEN conjunct2,
      THEN conjunct1]
  have mem: "j \<in> set ks \<longleftrightarrow> 0 \<le> j \<and> j < c \<and> j mod ?p < wk" for j
    unfolding st by simp
  have dz: "Day (s + z) = Day s" using sm z by (rule Day_same_day)
  have fin: "s + c * msPerDay = e \<longleftrightarrow> c = ?D"
  proof -
    have "s + c * msPerDay = e \<longleftrightarrow> (Day s + c) * msPerDay = Day e * msPerDay"
      by (subst sm, subst em) (simp add: algebra_simps)
    also have "\<dots> \<longleftrightarrow> Day s + c = Day e" using msPerDay_pos by simp
    finally show ?thesis by auto
  qed
  define ks' where "ks' = (if c = ?D then ks @ [c] else ks)"
  define xs where "xs = map (\<lambda>k. transformDate h (s + k * msPerDay)) ks'"
  define days where "days = map (\<lambda>k. Day s + k) ks'"
  have res: "getWorkSchedule h period wk off = Some xs"
    using fin by (simp add: getWorkSchedule_parsed[OF assms(4,5)] run xs_def ks'_def)
  have srt': "sorted_wrt (<) ks'"
    using srt mem by (auto simp: ks'_def sorted_wrt_append)
  have mem': "j \<in> set ks' \<and> j \<le> ?D \<longleftrightarrow> 0 \<le> j \<and> j \<le> ?D \<and> j mod ?p < wk" for j
  proof (cases "c = ?D")
    case True
    then have "j \<in> set ks' \<longleftrightarrow> j \<in> set ks \<or> j = ?D" by (auto simp: ks'_def)
    moreover have "?D mod ?p < wk" using cm True assms(7) by simp
    ultimately show ?thesis using mem[of j] True D0 by auto
  next
    case False
    then have "?D < c" using cD by simp
    moreover have "j \<in> set ks' \<longleftrightarrow> j \<in> set ks" using False by (simp add: ks'_def)
    ultimately show ?thesis using mem[of j] by auto
  qed
  have cd: "map calendar_day xs = map Some days"
    unfolding xs_def days_def using calendar_day_schedule[OF tz, of s ks'] by (simp only: dz)
  have sd: "sorted_wrt (<) days"
    unfolding days_def using srt' by (simp add: sorted_wrt_map)
  have "{d \<in> set days. d \<le> Day e} =
        {d. Day s \<le> d \<and> d \<le> Day e \<and> (d - Day s) mod ?p < wk}"
  proof (intro set_eqI iffI)
    fix d assume "d \<in> {d \<in> set days. d \<le> Day e}"
    then obtain j where j: "j \<in> set ks'" "d = Day s + j" "d \<le> Day e"
      by (auto simp: days_def)
    then have "j \<in> set ks' \<and> j \<le> ?D" by simp
    then have "0 \<le> j \<and> j \<le> ?D \<and> j mod ?p < wk"
      using mem'[of j] by blast
    then show "d \<in> {d. Day s \<le> d \<and> d \<le> Day e \<and> (d - Day s) mod ?p < wk}"
      using j(2) by simp
  next
    fix d assume "d \<in> {d. Day s \<le> d \<and> d \<le> Day e \<and> (d - Day s) mod ?p < wk}"
    then have "0 \<le> d - Day s \<and> d - Day s \<le> ?D \<and> (d - Day s) mod ?p < wk" by simp
    then have "d - Day s \<in> set ks' \<and> d - Day s \<le> ?D"
      using mem'[of "d - Day s"] by blast
    then have in_ks: "d - Day s \<in> set ks'" and le: "d \<le> Day e" by simp_all
    have "(\<lambda>k. Day s + k) (d - Day s) \<in> (\<lambda>k. Day s + k) ` set ks'"
      using in_ks by (rule imageI)
    then have "d \<in> (\<lambda>k. Day s + k) ` set ks'" by simp
    then have "d \<in> set days \<and> d \<le> Day e" using le by (simp add: days_def)
    then show "d \<in> {d \<in> set days. d \<le> Day e}" by (simp add: days_def)
  qed
  then show ?thesis using res cd sd by blast
qed

section \<open>Facts about the end of a call\<close>

text \<open>
  For a period with start \<open>\<le>\<close> end and \<open>workDays \<ge> 1\<close>, \<open>offDays \<ge> 1\<close>,
  \<^verbatim>\<open>getWorkSchedule\<close> returns, the body of its outer loop runs at most as many times as
  there are days from the start to the end, and the body of the inner loop
  \<open>workDays\<close> times for each of them.
\<close>

lemma getWorkSchedule_terminates:
  assumes "period_date (start period) = Some s" "period_date (end' period) = Some e"
    and "s \<le> e" "1 \<le> wk" "1 \<le> off"
  shows "\<exists>xs outer. getWorkSchedule h period wk off = Some xs
            \<and> getWorkSchedule_iterations h period wk off = Some (outer, outer * nat wk)
            \<and> int outer \<le> Day e - Day s"
proof -
  have pos: "1 \<le> wk + off" using assms(4,5) by simp
  obtain xs where xs: "getWorkSchedule h period wk off = Some xs"
    using getWorkSchedule_returns[OF assms(1,2)[THEN period_time_date] pos] by blast
  obtain k where k: "schedule_loop_iterations 1 (Day e - Day s) wk off 0 0 =
        Some (0 + k, 0 + k * nat wk)" and kb: "k \<le> nat (Day e - Day s + 1 - 1)"
    using schedule_loop_iterations_bound[OF pos] by blast
  have "0 \<le> Day e - Day s" using Day_mono[OF assms(3)] by simp
  then have "int k \<le> Day e - Day s" using kb by simp
  then show ?thesis
    using xs k by (simp add: getWorkSchedule_iterations_parsed[OF assms(1,2)])
qed

section \<open>The claims about getWorkSchedule\<close>

text \<open>
  In this embedding a call of \<^verbatim>\<open>getWorkSchedule\<close> either returns an array of strings
  (\<open>Some xs\<close>) or never returns (\<open>None\<close>). The source has no \<^verbatim>\<open>throw\<close> statement and
  calls nothing that throws on strings and integers, so there is no third outcome.

  The period is read as midnight UTC of its two dates and written in the local time of
  the host. The evaluations below are on a host on UTC, \<open>fixed_host 0\<close>, and on a host
  five hours west of UTC, \<open>fixed_host (- 18000000)\<close>.
\<close>

lemma period_date_20240101: "period_date ''01-01-2024'' = Some 1704067200000"
  by code_simp

lemma period_date_20240102: "period_date ''02-01-2024'' = Some 1704153600000"
  by code_simp

lemma period_date_20240103: "period_date ''03-01-2024'' = Some 1704240000000"
  by code_simp

text \<open>
  On a host on UTC both examples of the doc comment of \<^verbatim>\<open>getWorkSchedule\<close> come out as
  written there.
\<close>

lemma getWorkSchedule_examples_on_UTC:
  "getWorkSchedule (fixed_host 0) \<lparr>start = ''01-01-2024'', end' = ''15-01-2024''\<rparr> 1 3 =
     Some [''01-01-2024'', ''05-01-2024'', ''09-01-2024'', ''13-01-2024'']
   \<and> getWorkSchedule (fixed_host 0) \<lparr>start = ''01-01-2024'', end' = ''10-01-2024''\<rparr> 1 1 =
     Some [''01-01-2024'', ''03-01-2024'', ''05-01-2024'', ''07-01-2024'', ''09-01-2024'']"
  by code_simp

text \<open>
  C4. The claim and the doc comment give
  \<^verbatim>\<open>['01-01-2024', '05-01-2024', '09-01-2024', '13-01-2024']\<close> for
  \<^verbatim>\<open>getWorkSchedule({start: '01-01-2024', end: '15-01-2024'}, 1, 3)\<close>. On a host five
  hours west of UTC the call returns the day before each of these dates: midnight UTC
  of a date is the evening before in local time, and \<^verbatim>\<open>transformDate\<close> writes the local
  date.
\<close>

theorem getWorkSchedule_examples_west_of_UTC:
  "getWorkSchedule (fixed_host (- 18000000))
     \<lparr>start = ''01-01-2024'', end' = ''15-01-2024''\<rparr> 1 3 =
     Some [''31-12-2023'', ''04-01-2024'', ''08-01-2024'', ''12-01-2024'']"
  by code_simp

text \<open>
  C1, at a period of two days with three work days and one day off: the claim gives the
  dates of the period whose offset from the start is below 3 modulo 4, that is
  \<^verbatim>\<open>['01-01-2024', '02-01-2024']\<close>. The inner loop pushes all three work days of the
  block: the array returned has a third entry. On a host on UTC that entry is the day
  after the end of the period; on a host five hours west of UTC the array has three
  entries as well, each a day early.
\<close>

theorem getWorkSchedule_last_block_not_truncated:
  "getWorkSchedule (fixed_host 0) \<lparr>start = ''01-01-2024'', end' = ''02-01-2024''\<rparr> 3 1 =
     Some [''01-01-2024'', ''02-01-2024'', ''03-01-2024'']
   \<and> getWorkSchedule (fixed_host (- 18000000))
        \<lparr>start = ''01-01-2024'', end' = ''02-01-2024''\<rparr> 3 1 =
     Some [''31-12-2023'', ''01-01-2024'', ''02-01-2024'']"
  by code_simp

text \<open>
  C2, at the period from 28-02-2023 to 01-03-2023 with five work days and two days off:
  on a host on UTC the last three strings returned denote days after the end of the
  period (day numbers 19418 to 19420, the end being day 19417). On a host five hours
  west of UTC the last two strings do, and the first denotes the day before the start.
\<close>

theorem getWorkSchedule_dates_past_end:
  "getWorkSchedule (fixed_host 0) \<lparr>start = ''28-02-2023'', end' = ''01-03-2023''\<rparr> 5 2 =
     Some [''28-02-2023'', ''01-03-2023'', ''02-03-2023'', ''03-03-2023'', ''04-03-2023'']
   \<and> getWorkSchedule (fixed_host (- 18000000))
        \<lparr>start = ''28-02-2023'', end' = ''01-03-2023''\<rparr> 5 2 =
     Some [''27-02-2023'', ''28-02-2023'', ''01-03-2023'', ''02-03-2023'', ''03-03-2023'']
   \<and> calendar_day ''01-03-2023'' = Some 19417
   \<and> map calendar_day [''02-03-2023'', ''03-03-2023'', ''04-03-2023''] =
       [Some 19418, Some 19419, Some 19420]"
  by code_simp

text \<open>
  C3 as stated fails: with the start after the end, with no work day and with no day
  off, the call returns an array and raises nothing.
\<close>

theorem getWorkSchedule_invalid_arguments_return:
  "getWorkSchedule (fixed_host 0) \<lparr>start = ''02-01-2024'', end' = ''01-01-2024''\<rparr> 1 1 =
     Some []
   \<and> getWorkSchedule (fixed_host 0) \<lparr>start = ''01-01-2024'', end' = ''03-01-2024''\<rparr> 0 1 =
       Some [''03-01-2024'']
   \<and> getWorkSchedule (fixed_host 0) \<lparr>start = ''01-01-2024'', end' = ''03-01-2024''\<rparr> 1 0 =
       Some [''01-01-2024'', ''02-01-2024'', ''03-01-2024'']"
  by code_simp

text \<open>
  C3, amended. \<^verbatim>\<open>getWorkSchedule\<close> checks none of its arguments and raises no error.
  On every host, for a period whose two dates parse and with \<open>workDays < 1\<close>,
  \<open>offDays < 1\<close> or the start after the end: when the start is after the end it returns
  the empty array; when the start is the end it returns an array of one entry; when the
  start is before the end and \<open>workDays + offDays \<ge> 1\<close> it returns an array.
\<close>

theorem getWorkSchedule_no_validation:
  assumes "period_time h (start period) = Some s" "period_time h (end' period) = Some e"
    and "wk < 1 \<or> off < 1 \<or> e < s"
  shows "(e < s \<longrightarrow> getWorkSchedule h period wk off = Some [])
       \<and> (s = e \<longrightarrow> (\<exists>x. getWorkSchedule h period wk off = Some [x]))
       \<and> (s < e \<and> 1 \<le> wk + off \<longrightarrow> (\<exists>xs. getWorkSchedule h period wk off = Some xs))"
proof (intro conjI impI)
  assume "e < s"
  with assms(1,2) show "getWorkSchedule h period wk off = Some []"
    by (rule getWorkSchedule_start_after_end)
next
  assume "s = e"
  then have "getWorkSchedule h period wk off = Some [transformDate h s]"
    using assms(1,2) by (intro getWorkSchedule_same_day) simp_all
  then show "\<exists>x. getWorkSchedule h period wk off = Some [x]" by blast
next
  assume "s < e \<and> 1 \<le> wk + off"
  then have "1 \<le> wk + off" by simp
  with assms(1,2) show "\<exists>xs. getWorkSchedule h period wk off = Some xs"
    by (rule getWorkSchedule_returns)
qed

theorem getWorkSchedule_no_validation_witness:
  "period_time (fixed_host 0) ''03-01-2024'' = Some 1704240000000
   \<and> period_time (fixed_host 0) ''01-01-2024'' = Some 1704067200000
   \<and> ((0::int) < 1 \<or> (0::int) < 1 \<or> (1704067200000::int) < 1704240000000)
   \<and> getWorkSchedule (fixed_host 0) \<lparr>start = ''03-01-2024'', end' = ''01-01-2024''\<rparr> 0 0 =
       Some []"
proof -
  have a: "period_time (fixed_host 0) (start \<lparr>start = ''03-01-2024'', end' = ''01-01-2024''\<rparr>)
      = Some 1704240000000"
    by (simp add: period_time_date period_date_20240103)
  have b: "period_time (fixed_host 0) (end' \<lparr>start = ''03-01-2024'', end' = ''01-01-2024''\<rparr>)
      = Some 1704067200000"
    by (simp add: period_time_date period_date_20240101)
  have c: "(0::int) < 1 \<or> (0::int) < 1 \<or> (1704067200000::int) < 1704240000000" by simp
  show ?thesis
    using getWorkSchedule_no_validation[OF a b c]
    by (simp add: period_time_date period_date_20240103 period_date_20240101)
qed

text \<open>
  C10. For every period whose start date is later than its end date (both dates
  parse) and any \<open>workDays\<close> and \<open>offDays\<close>, \<^verbatim>\<open>getWorkSchedule\<close> raises no error and
  returns the empty array, on every host.
\<close>

theorem getWorkSchedule_reversed_period:
  assumes "period_time h (start period) = Some s" "period_time h (end' period) = Some e"
    and "e < s"
  shows "getWorkSchedule h period wk off = Some []"
  using assms by (rule getWorkSchedule_start_after_end)

theorem getWorkSchedule_reversed_period_witness:
  "period_time (fixed_host (- 18000000)) ''02-01-2024'' = Some 1704153600000
   \<and> period_time (fixed_host (- 18000000)) ''01-01-2024'' = Some 1704067200000
   \<and> (1704067200000::int) < 1704153600000
   \<and> getWorkSchedule (fixed_host (- 18000000))
        \<lparr>start = ''02-01-2024'', end' = ''01-01-2024''\<rparr> 5 (- 2) = Some []"
proof -
  have a: "period_time (fixed_host (- 18000000))
      (start \<lparr>start = ''02-01-2024'', end' = ''01-01-2024''\<rparr>) = Some 1704153600000"
    by (simp add: period_time_date period_date_20240102)
  have b: "period_time (fixed_host (- 18000000))
      (end' \<lparr>start = ''02-01-2024'', end' = ''01-01-2024''\<rparr>) = Some 1704067200000"
    by (simp add: period_time_date period_date_20240101)
  have c: "(1704067200000::int) < 1704153600000" by simp
  show ?thesis
    using getWorkSchedule_reversed_period[OF a b c]
    by (simp add: period_time_date period_date_20240102 period_date_20240101)
qed

text \<open>
  C8, at the period from 01-01-2024 to 02-01-2024 with three work days and one day
  off, on every host. The range has two days (day numbers 19723 and 19724), and the
  claim bounds the number of loop iterations by them; the body of the outer loop runs
  once and the body of the inner loop three times.
\<close>

theorem getWorkSchedule_iterations_exceed_range:
  "getWorkSchedule_iterations h \<lparr>start = ''01-01-2024'', end' = ''02-01-2024''\<rparr> 3 1 =
     Some (1, 3)
   \<and> calendar_day ''01-01-2024'' = Some 19723
   \<and> calendar_day ''02-01-2024'' = Some 19724"
proof -
  have "schedule_loop_iterations 1 (Day 1704153600000 - Day 1704067200000) 3 1 0 0 =
      Some (1, 3)"
    by code_simp
  then have "getWorkSchedule_iterations h
      \<lparr>start = ''01-01-2024'', end' = ''02-01-2024''\<rparr> 3 1 = Some (1, 3)"
    by (simp add: getWorkSchedule_iterations_parsed[of _ 1704067200000 1704153600000]
        period_date_20240101 period_date_20240102)
  moreover have "calendar_day ''01-01-2024'' = Some 19723" by code_simp
  moreover have "calendar_day ''02-01-2024'' = Some 19724" by code_simp
  ultimately show ?thesis by simp
qed



text \<open>
  A period of one day, on a host at a fixed offset from UTC: the array holds one
  string, and it denotes the day of the start's midnight UTC moved by the offset. On a
  host on UTC or east of it by less than a day that is the day of the start, and from
  year 1000 on the string is the very string the period gives as its start.
\<close>

lemma getWorkSchedule_single_day_zone:
  assumes "LocalTZA h = (\<lambda>t isUTC. z)"
    and "period_date (start period) = Some s" "period_date (end' period) = Some s"
  shows "getWorkSchedule h period wk off = Some [transformDate h s]
       \<and> calendar_day (transformDate h s) = Some (Day (s + z))"
  using getWorkSchedule_same_day[OF assms(2,3)[THEN period_time_date]]
    calendar_day_transformDate[OF assms(1)]
  by simp

lemma getWorkSchedule_single_day_east:
  assumes "LocalTZA h = (\<lambda>t isUTC. z)" "0 \<le> z" "z < msPerDay"
    and "period_date (start period) = Some s" "period_date (end' period) = Some s"
  shows "getWorkSchedule h period wk off = Some [transformDate h s]
       \<and> calendar_day (transformDate h s) = Some (Day s)
       \<and> (1000 \<le> getFullYear h s \<longrightarrow> transformDate h s = start period)"
proof -
  have "s = Day s * msPerDay"
    using assms(4) iso_date_midnight by (auto simp: period_date_def)
  then have dz: "Day (s + z) = Day s" using assms(2,3) by (rule Day_same_day)
  have yr: "getFullYear h s = YearFromTime (s + z)"
    by (simp add: getFullYear_def LocalTime_def assms(1))
  show ?thesis
    using getWorkSchedule_single_day_zone[OF assms(1,4,5), of wk off]
      date_text_period_date[OF assms(4) dz]
    by (simp add: dz yr transformDate_date_text[OF assms(1)])
qed

text \<open>
  C6. The claim gives \<^verbatim>\<open>['02-01-2024']\<close> for a period that starts and ends on
  02-01-2024, with four work days and three days off. On a host five hours west of UTC
  the call returns one entry, and it is \<^verbatim>\<open>'01-01-2024'\<close>, the day before the start (day
  number 19723, the start being day 19724).
\<close>

theorem getWorkSchedule_single_day_west_of_UTC:
  "getWorkSchedule (fixed_host (- 18000000))
     \<lparr>start = ''02-01-2024'', end' = ''02-01-2024''\<rparr> 4 3 = Some [''01-01-2024'']
   \<and> calendar_day ''01-01-2024'' = Some 19723
   \<and> calendar_day ''02-01-2024'' = Some 19724"
  by code_simp

text \<open>
  C7. The claim makes the array a function of the period, \<open>workDays\<close> and \<open>offDays\<close>
  alone. The same three values give one array on a host on UTC and another on a host
  five hours west of UTC: the call reads the time zone of the host.
\<close>

theorem getWorkSchedule_depends_on_host:
  "getWorkSchedule (fixed_host 0) \<lparr>start = ''01-01-2024'', end' = ''10-01-2024''\<rparr> 1 1 =
     Some [''01-01-2024'', ''03-01-2024'', ''05-01-2024'', ''07-01-2024'', ''09-01-2024'']
   \<and> getWorkSchedule (fixed_host (- 18000000))
        \<lparr>start = ''01-01-2024'', end' = ''10-01-2024''\<rparr> 1 1 =
     Some [''31-12-2023'', ''02-01-2024'', ''04-01-2024'', ''06-01-2024'', ''08-01-2024'']"
  by code_simp

section \<open>The claim about getCountWeekendsInMonth\<close>




end
